theory Spec2Isabelle
  imports Main "HOL-Library.Word"
begin

section \<open>The ring buffer of \<^verbatim>\<open>tiny_rb.h\<close>\<close>

text \<open>
  \<^verbatim>\<open>tiny_rb.h\<close> is a header of macros over one static struct per buffer name. Each macro
  is embedded as a function from the struct (a record) to the struct after the call.
  \<^verbatim>\<open>size_t\<close> is a 64-bit unsigned word, so \<^verbatim>\<open>head++\<close>, \<^verbatim>\<open>head--\<close> and \<^verbatim>\<open>tail + 1\<close> wrap
  around as they do in C. The element type is a type variable; \<^verbatim>\<open>memcpy\<close> of one element
  is the copy of a value, and the caller's element is a variable of its own, apart from
  the struct.

  C gives no meaning to an access outside \<^verbatim>\<open>buf\<close> or to \<^verbatim>\<open>% 0\<close>. The embedding makes both
  a result of their own (\<open>Inl\<close> of a \<open>fault\<close>), so that a call either returns the struct
  after the call or names the undefined step it ran into.
\<close>

type_synonym size_t = "64 word"

datatype fault = OutOfBounds | DivByZero

record 'a trb =
  buf :: "'a list"
  capacity :: size_t
  head :: size_t
  tail :: size_t
  count :: size_t

text \<open>\<^verbatim>\<open>TRB_RB_DEFINE(TYPE, NAME, CAPACITY)\<close>: \<^verbatim>\<open>CAPACITY\<close> slots, all of them the zero value
  \<open>z\<close> of the element type (\<^verbatim>\<open>.buf = {0}\<close>), and the three indices at 0.\<close>

definition TRB_RB_DEFINE :: "'a \<Rightarrow> size_t \<Rightarrow> 'a trb" where
  "TRB_RB_DEFINE z CAPACITY =
     \<lparr>buf = replicate (unat CAPACITY) z, capacity = CAPACITY, head = 0, tail = 0, count = 0\<rparr>"

text \<open>The queries. A C comparison is an \<^verbatim>\<open>int\<close>, 1 or 0.\<close>

definition trb_is_empty :: "'a trb \<Rightarrow> int" where
  "trb_is_empty s = (if count s = 0 then 1 else 0)"

definition trb_is_full :: "'a trb \<Rightarrow> int" where
  "trb_is_full s = (if count s = capacity s then 1 else 0)"

definition trb_size :: "'a trb \<Rightarrow> size_t" where
  "trb_size s = count s"

definition trb_capacity :: "'a trb \<Rightarrow> size_t" where
  "trb_capacity s = capacity s"

definition trb_remaining :: "'a trb \<Rightarrow> size_t" where
  "trb_remaining s = capacity s - count s"

definition trb_flush :: "'a trb \<Rightarrow> 'a trb" where
  "trb_flush s = s\<lparr>head := 0, tail := 0, count := 0\<rparr>"

text \<open>
  \<^verbatim>\<open>trb_fifo_push\<close>: \<^verbatim>\<open>-1\<close> when full; otherwise the element is copied to \<^verbatim>\<open>buf[tail]\<close>,
  \<^verbatim>\<open>tail = (tail + 1) % capacity\<close>, \<^verbatim>\<open>count++\<close>, and the value of the expression is 0.
\<close>

definition trb_fifo_push :: "'a trb \<Rightarrow> 'a \<Rightarrow> fault + (int \<times> 'a trb)" where
  "trb_fifo_push s v =
     (if trb_is_full s \<noteq> 0 then Inr (- 1, s)
      else if length (buf s) \<le> unat (tail s) then Inl OutOfBounds
      else if capacity s = 0 then Inl DivByZero
      else Inr (0, s\<lparr>buf := (buf s)[unat (tail s) := v],
                      tail := (tail s + 1) mod capacity s,
                      count := count s + 1\<rparr>))"

text \<open>
  \<^verbatim>\<open>trb_fifo_force_push\<close> is a statement, not an expression: it has no value. It copies and
  advances \<^verbatim>\<open>tail\<close> first, and tests \<^verbatim>\<open>trb_is_full\<close> afterwards, on a \<^verbatim>\<open>count\<close> that
  has not changed yet.
\<close>

definition trb_fifo_force_push :: "'a trb \<Rightarrow> 'a \<Rightarrow> fault + 'a trb" where
  "trb_fifo_force_push s v =
     (if length (buf s) \<le> unat (tail s) then Inl OutOfBounds
      else if capacity s = 0 then Inl DivByZero
      else
        let s1 = s\<lparr>buf := (buf s)[unat (tail s) := v], tail := (tail s + 1) mod capacity s\<rparr>
        in if trb_is_full s1 \<noteq> 0
           then Inr (s1\<lparr>head := (head s1 + 1) mod capacity s1\<rparr>)
           else Inr (s1\<lparr>count := count s1 + 1\<rparr>))"

text \<open>
  The pops and peeks copy into the caller's \<^verbatim>\<open>VALUE_PTR\<close>. The functions take the value
  stored there before the call and return the value stored there after it.
\<close>

definition trb_fifo_pop :: "'a trb \<Rightarrow> 'a \<Rightarrow> fault + (int \<times> 'a trb \<times> 'a)" where
  "trb_fifo_pop s out =
     (if trb_is_empty s \<noteq> 0 then Inr (- 1, s, out)
      else if length (buf s) \<le> unat (head s) then Inl OutOfBounds
      else if capacity s = 0 then Inl DivByZero
      else Inr (0, s\<lparr>head := (head s + 1) mod capacity s, count := count s - 1\<rparr>,
                buf s ! unat (head s)))"

definition trb_fifo_peek :: "'a trb \<Rightarrow> 'a \<Rightarrow> fault + (int \<times> 'a trb \<times> 'a)" where
  "trb_fifo_peek s out =
     (if trb_is_empty s \<noteq> 0 then Inr (- 1, s, out)
      else if length (buf s) \<le> unat (head s) then Inl OutOfBounds
      else Inr (0, s, buf s ! unat (head s)))"

text \<open>The LIFO macros use \<^verbatim>\<open>head\<close> alone, as a stack pointer, with no \<^verbatim>\<open>%\<close>.\<close>

definition trb_lifo_push :: "'a trb \<Rightarrow> 'a \<Rightarrow> fault + (int \<times> 'a trb)" where
  "trb_lifo_push s v =
     (if trb_is_full s \<noteq> 0 then Inr (- 1, s)
      else if length (buf s) \<le> unat (head s) then Inl OutOfBounds
      else Inr (0, s\<lparr>buf := (buf s)[unat (head s) := v],
                      head := head s + 1,
                      count := count s + 1\<rparr>))"

definition trb_lifo_pop :: "'a trb \<Rightarrow> 'a \<Rightarrow> fault + (int \<times> 'a trb \<times> 'a)" where
  "trb_lifo_pop s out =
     (if trb_is_empty s \<noteq> 0 then Inr (- 1, s, out)
      else if length (buf s) \<le> unat (head s - 1) then Inl OutOfBounds
      else Inr (0, s\<lparr>head := head s - 1, count := count s - 1\<rparr>,
                buf s ! unat (head s - 1)))"

definition trb_lifo_peek :: "'a trb \<Rightarrow> 'a \<Rightarrow> fault + (int \<times> 'a trb \<times> 'a)" where
  "trb_lifo_peek s out =
     (if trb_is_empty s \<noteq> 0 then Inr (- 1, s, out)
      else if length (buf s) \<le> unat (head s - 1) then Inl OutOfBounds
      else Inr (0, s, buf s ! unat (head s - 1)))"


section \<open>Sequences of calls\<close>

text \<open>
  A caller, such as \<^verbatim>\<open>main\<close> of \<^verbatim>\<open>example.c\<close>, issues one macro after the other on one
  buffer and passes the address of one variable to every pop and peek. An \<open>op\<close> is one
  such call, \<open>exec\<close> performs it on the struct and on that variable, and \<open>run\<close> performs
  a list of them from left to right. \<open>run\<close> logs, for every call, what the call returned
  and what the variable held afterwards; it stops at the first undefined step.
\<close>

datatype 'a op =
    Fifo_push 'a | Fifo_force_push 'a | Fifo_pop | Fifo_peek
  | Lifo_push 'a | Lifo_pop | Lifo_peek
  | Flush | Is_empty | Is_full | Size | Capacity | Remaining

text \<open>What a call yields: an \<^verbatim>\<open>int\<close>, a \<^verbatim>\<open>size_t\<close>, or nothing (the two statement macros).\<close>

datatype ret = Code int | Val size_t | Void

definition pushed :: "'a \<Rightarrow> fault + (int \<times> 'a trb) \<Rightarrow> fault + (ret \<times> 'a trb \<times> 'a)" where
  "pushed out r = (case r of Inl e \<Rightarrow> Inl e | Inr (c, s') \<Rightarrow> Inr (Code c, s', out))"

definition popped :: "fault + (int \<times> 'a trb \<times> 'a) \<Rightarrow> fault + (ret \<times> 'a trb \<times> 'a)" where
  "popped r = (case r of Inl e \<Rightarrow> Inl e | Inr (c, s', out') \<Rightarrow> Inr (Code c, s', out'))"

fun exec :: "'a op \<Rightarrow> 'a trb \<Rightarrow> 'a \<Rightarrow> fault + (ret \<times> 'a trb \<times> 'a)" where
  "exec (Fifo_push v) s out = pushed out (trb_fifo_push s v)"
| "exec (Fifo_force_push v) s out =
     (case trb_fifo_force_push s v of Inl e \<Rightarrow> Inl e | Inr s' \<Rightarrow> Inr (Void, s', out))"
| "exec Fifo_pop s out = popped (trb_fifo_pop s out)"
| "exec Fifo_peek s out = popped (trb_fifo_peek s out)"
| "exec (Lifo_push v) s out = pushed out (trb_lifo_push s v)"
| "exec Lifo_pop s out = popped (trb_lifo_pop s out)"
| "exec Lifo_peek s out = popped (trb_lifo_peek s out)"
| "exec Flush s out = Inr (Void, trb_flush s, out)"
| "exec Is_empty s out = Inr (Code (trb_is_empty s), s, out)"
| "exec Is_full s out = Inr (Code (trb_is_full s), s, out)"
| "exec Size s out = Inr (Val (trb_size s), s, out)"
| "exec Capacity s out = Inr (Val (trb_capacity s), s, out)"
| "exec Remaining s out = Inr (Val (trb_remaining s), s, out)"

fun run :: "'a op list \<Rightarrow> 'a trb \<Rightarrow> 'a \<Rightarrow> fault + ((ret \<times> 'a) list \<times> 'a trb \<times> 'a)" where
  "run [] s out = Inr ([], s, out)"
| "run (x # xs) s out =
     (case exec x s out of
        Inl e \<Rightarrow> Inl e
      | Inr (r, s', out') \<Rightarrow>
          (case run xs s' out' of
             Inl e \<Rightarrow> Inl e
           | Inr (log, s'', out'') \<Rightarrow> Inr ((r, out') # log, s'', out'')))"

text \<open>The calls of the FIFO discipline and those of the LIFO discipline. Flush and the
  queries belong to both.\<close>

fun fifo_op :: "'a op \<Rightarrow> bool" where
  "fifo_op (Lifo_push v) = False"
| "fifo_op Lifo_pop = False"
| "fifo_op Lifo_peek = False"
| "fifo_op x = True"

fun lifo_op :: "'a op \<Rightarrow> bool" where
  "lifo_op (Fifo_push v) = False"
| "lifo_op (Fifo_force_push v) = False"
| "lifo_op Fifo_pop = False"
| "lifo_op Fifo_peek = False"
| "lifo_op x = True"

definition fifo_only :: "'a op list \<Rightarrow> bool" where
  "fifo_only ops = list_all fifo_op ops"

definition lifo_only :: "'a op list \<Rightarrow> bool" where
  "lifo_only ops = list_all lifo_op ops"

text \<open>\<open>push_free ops\<close>: no \<open>lifo_push\<close> was called since the last flush, or since the
  start where there was no flush. \<open>since_flush\<close> carries that fact over one call.\<close>

fun since_flush :: "bool \<Rightarrow> 'a op \<Rightarrow> bool" where
  "since_flush b Flush = True"
| "since_flush b (Lifo_push v) = False"
| "since_flush b x = b"

definition push_free :: "'a op list \<Rightarrow> bool" where
  "push_free ops = foldl since_flush True ops"


section \<open>Invariants and logical content\<close>

text \<open>\<open>count\<close> within the capacity; the storage as long as the capacity says.\<close>

definition count_inv :: "'a trb \<Rightarrow> bool" where
  "count_inv s \<longleftrightarrow> count s \<le> capacity s"

definition shape_inv :: "size_t \<Rightarrow> 'a trb \<Rightarrow> bool" where
  "shape_inv N s \<longleftrightarrow> capacity s = N \<and> length (buf s) = unat N"

definition head_le :: "'a trb \<Rightarrow> bool" where
  "head_le s \<longleftrightarrow> length (buf s) = unat (capacity s) \<and> head s \<le> capacity s"

text \<open>The stack discipline: \<open>head\<close> is the number of stacked elements.\<close>

definition lifo_inv :: "'a trb \<Rightarrow> bool" where
  "lifo_inv s \<longleftrightarrow>
     length (buf s) = unat (capacity s) \<and> head s = count s \<and> count s \<le> capacity s"

text \<open>The queue discipline: \<open>head\<close> is a slot, and \<open>tail\<close> lies \<open>count\<close> slots after it,
  around the end of the storage.\<close>

definition fifo_inv :: "'a trb \<Rightarrow> bool" where
  "fifo_inv s \<longleftrightarrow>
     length (buf s) = unat (capacity s) \<and>
     unat (head s) < unat (capacity s) \<and>
     unat (count s) \<le> unat (capacity s) \<and>
     unat (tail s) = (unat (head s) + unat (count s)) mod unat (capacity s)"

text \<open>\<open>ring xs h c\<close>: the \<open>c\<close> slots of \<open>xs\<close> from index \<open>h\<close> on, around the end.\<close>

definition ring :: "'a list \<Rightarrow> nat \<Rightarrow> nat \<Rightarrow> 'a list" where
  "ring xs h c = map (\<lambda>i. xs ! ((h + i) mod length xs)) [0..<c]"

text \<open>The logical content of a queue, oldest element first, and of a stack, newest
  element first.\<close>

definition fifo_contents :: "'a trb \<Rightarrow> 'a list" where
  "fifo_contents s = ring (buf s) (unat (head s)) (unat (count s))"

definition lifo_contents :: "'a trb \<Rightarrow> 'a list" where
  "lifo_contents s = rev (take (unat (head s)) (buf s))"


section \<open>The two disciplines as the specification words them\<close>

text \<open>
  The specification describes FIFO mode as a bounded queue: a push fails with \<open>Full\<close> at
  capacity and appends otherwise; a force-push retires the oldest element at capacity
  and appends; a pop or peek fails with \<open>Empty\<close> on no elements and yields the oldest
  otherwise; flush empties. \<open>spec_fifo N\<close> is that queue of capacity \<open>N\<close> on a plain list,
  oldest element first. The error indicator of the header is \<^verbatim>\<open>-1\<close> for both errors, and
  success is 0. A call of the other discipline has no meaning here (\<open>None\<close>).
\<close>

fun spec_fifo :: "nat \<Rightarrow> 'a op \<Rightarrow> 'a list \<Rightarrow> 'a \<Rightarrow> (ret \<times> 'a list \<times> 'a) option" where
  "spec_fifo N (Fifo_push v) q out =
     Some (if length q = N then (Code (- 1), q, out) else (Code 0, q @ [v], out))"
| "spec_fifo N (Fifo_force_push v) q out =
     Some (Void, (if length q = N then tl q else q) @ [v], out)"
| "spec_fifo N Fifo_pop q out =
     Some (case q of [] \<Rightarrow> (Code (- 1), q, out) | x # q' \<Rightarrow> (Code 0, q', x))"
| "spec_fifo N Fifo_peek q out =
     Some (case q of [] \<Rightarrow> (Code (- 1), q, out) | x # q' \<Rightarrow> (Code 0, q, x))"
| "spec_fifo N Flush q out = Some (Void, [], out)"
| "spec_fifo N Is_empty q out = Some (Code (if length q = 0 then 1 else 0), q, out)"
| "spec_fifo N Is_full q out = Some (Code (if length q = N then 1 else 0), q, out)"
| "spec_fifo N Size q out = Some (Val (of_nat (length q)), q, out)"
| "spec_fifo N Capacity q out = Some (Val (of_nat N), q, out)"
| "spec_fifo N Remaining q out = Some (Val (of_nat (N - length q)), q, out)"
| "spec_fifo N (Lifo_push v) q out = None"
| "spec_fifo N Lifo_pop q out = None"
| "spec_fifo N Lifo_peek q out = None"

fun spec_fifo_run ::
  "nat \<Rightarrow> 'a op list \<Rightarrow> 'a list \<Rightarrow> 'a \<Rightarrow> ((ret \<times> 'a) list \<times> 'a list \<times> 'a) option" where
  "spec_fifo_run N [] q out = Some ([], q, out)"
| "spec_fifo_run N (x # xs) q out =
     (case spec_fifo N x q out of
        None \<Rightarrow> None
      | Some (r, q', out') \<Rightarrow>
          (case spec_fifo_run N xs q' out' of
             None \<Rightarrow> None
           | Some (log, q'', out'') \<Rightarrow> Some ((r, out') # log, q'', out'')))"

text \<open>
  LIFO mode is a bounded stack in the specification: a push fails with \<open>Full\<close> at capacity
  and stacks otherwise; a pop or peek fails with \<open>Empty\<close> on no elements and yields the
  most recently pushed element not yet popped otherwise. \<open>spec_lifo N\<close> is that stack on a
  plain list, newest element first.
\<close>

fun spec_lifo :: "nat \<Rightarrow> 'a op \<Rightarrow> 'a list \<Rightarrow> 'a \<Rightarrow> (ret \<times> 'a list \<times> 'a) option" where
  "spec_lifo N (Lifo_push v) st out =
     Some (if length st = N then (Code (- 1), st, out) else (Code 0, v # st, out))"
| "spec_lifo N Lifo_pop st out =
     Some (case st of [] \<Rightarrow> (Code (- 1), st, out) | x # st' \<Rightarrow> (Code 0, st', x))"
| "spec_lifo N Lifo_peek st out =
     Some (case st of [] \<Rightarrow> (Code (- 1), st, out) | x # st' \<Rightarrow> (Code 0, st, x))"
| "spec_lifo N Flush st out = Some (Void, [], out)"
| "spec_lifo N Is_empty st out = Some (Code (if length st = 0 then 1 else 0), st, out)"
| "spec_lifo N Is_full st out = Some (Code (if length st = N then 1 else 0), st, out)"
| "spec_lifo N Size st out = Some (Val (of_nat (length st)), st, out)"
| "spec_lifo N Capacity st out = Some (Val (of_nat N), st, out)"
| "spec_lifo N Remaining st out = Some (Val (of_nat (N - length st)), st, out)"
| "spec_lifo N (Fifo_push v) st out = None"
| "spec_lifo N (Fifo_force_push v) st out = None"
| "spec_lifo N Fifo_pop st out = None"
| "spec_lifo N Fifo_peek st out = None"

fun spec_lifo_run ::
  "nat \<Rightarrow> 'a op list \<Rightarrow> 'a list \<Rightarrow> 'a \<Rightarrow> ((ret \<times> 'a) list \<times> 'a list \<times> 'a) option" where
  "spec_lifo_run N [] st out = Some ([], st, out)"
| "spec_lifo_run N (x # xs) st out =
     (case spec_lifo N x st out of
        None \<Rightarrow> None
      | Some (r, st', out') \<Rightarrow>
          (case spec_lifo_run N xs st' out' of
             None \<Rightarrow> None
           | Some (log, st'', out'') \<Rightarrow> Some ((r, out') # log, st'', out'')))"


section \<open>Sequences, word arithmetic and the ring of slots\<close>

lemmas trb_defs =
  trb_is_empty_def trb_is_full_def trb_flush_def
  trb_fifo_push_def trb_fifo_force_push_def trb_fifo_pop_def trb_fifo_peek_def
  trb_lifo_push_def trb_lifo_pop_def trb_lifo_peek_def pushed_def popped_def

lemma run_Cons_Inr:
  "run (x # xs) s out = Inr (log, t, out') \<longleftrightarrow>
     (\<exists>r s1 out1 log1. exec x s out = Inr (r, s1, out1) \<and> run xs s1 out1 = Inr (log1, t, out')
        \<and> log = (r, out1) # log1)"
  by (auto split: sum.splits)

lemma run_invariant:
  assumes step: "\<And>x s out r s' out'. P s \<Longrightarrow> A x \<Longrightarrow> exec x s out = Inr (r, s', out') \<Longrightarrow> P s'"
  shows "P s \<Longrightarrow> list_all A ops \<Longrightarrow> run ops s out = Inr (log, t, out') \<Longrightarrow> P t"
proof (induction ops arbitrary: s out log)
  case Nil
  then show ?case by simp
next
  case (Cons x xs)
  from Cons.prems(3) obtain r s1 out1 log1 where
    e: "exec x s out = Inr (r, s1, out1)" and r: "run xs s1 out1 = Inr (log1, t, out')"
    unfolding run_Cons_Inr by blast
  from Cons.prems(1,2) e have "P s1" by (auto intro: step)
  with Cons.IH r Cons.prems(2) show ?case by simp
qed

lemma run_total:
  assumes step: "\<And>x s out. P s \<Longrightarrow> A x \<Longrightarrow> \<exists>r s' out'. exec x s out = Inr (r, s', out') \<and> P s'"
  shows "P s \<Longrightarrow> list_all A ops \<Longrightarrow> \<exists>log t out'. run ops s out = Inr (log, t, out') \<and> P t"
proof (induction ops arbitrary: s out)
  case Nil
  then show ?case by simp
next
  case (Cons x xs)
  from step [of s x out] Cons.prems obtain r s1 out1 where
    e: "exec x s out = Inr (r, s1, out1)" and p: "P s1" by auto
  from Cons.IH [OF p, of out1] Cons.prems(2) obtain log1 t out' where
    "run xs s1 out1 = Inr (log1, t, out')" "P t" by auto
  with e show ?case by simp
qed

lemma list_all_take: "list_all A xs \<Longrightarrow> list_all A (take n xs)"
  by (auto simp: list_all_iff dest: in_set_takeD)

lemma word_pred_le: "(c::size_t) \<le> n \<Longrightarrow> c - 1 \<le> n \<or> c = 0"
  using less_eq_dec_iff by fastforce

lemma word_mod_less: "(n::size_t) \<noteq> 0 \<Longrightarrow> x mod n < n"
  by (simp add: word_mod_less_divisor word_neq_0_conv)

lemma unat_inc: "unat (x::size_t) < unat (n::size_t) \<Longrightarrow> unat (x + 1) = Suc (unat x)"
  by unat_arith

lemma unat_inc_mod:
  "unat (x::size_t) < unat (n::size_t) \<Longrightarrow> unat ((x + 1) mod n) = Suc (unat x) mod unat n"
  by (simp add: unat_mod unat_inc)

lemma three_le: "(3::size_t) \<le> N \<Longrightarrow> 3 \<le> unat N"
  by (simp add: word_le_nat_alt)

lemma length_ring: "length (ring xs h c) = c"
  by (simp add: ring_def)

lemma ring_0: "ring xs h 0 = []"
  by (simp add: ring_def)

lemma mod_add_neq:
  fixes N :: nat
  assumes "i < c" and "c < N"
  shows "(h + i) mod N \<noteq> (h + c) mod N"
proof
  assume "(h + i) mod N = (h + c) mod N"
  then have "(h + c) mod N = (h + i) mod N" by simp
  moreover have "h + i \<le> h + c" using assms by simp
  ultimately have "N dvd (h + c) - (h + i)"
    by (simp add: mod_eq_dvd_iff_nat)
  then have "N dvd c - i" by simp
  moreover have "0 < c - i" "c - i < N" using assms by simp_all
  ultimately show False by (auto dest: dvd_imp_le)
qed

lemma ring_snoc:
  assumes "c < length xs"
  shows "ring (xs[(h + c) mod length xs := v]) h (Suc c) = ring xs h c @ [v]"
proof -
  let ?N = "length xs"
  have "0 < ?N" using assms by auto
  then have "(h + c) mod ?N < ?N" by (rule mod_less_divisor)
  moreover have "\<And>i. i < c \<Longrightarrow> (h + c) mod ?N \<noteq> (h + i) mod ?N"
    using mod_add_neq [OF _ assms, of _ h] by fastforce
  ultimately show ?thesis
    by (simp add: ring_def)
qed

lemma ring_Cons:
  assumes "h < length xs"
  shows "ring xs h (Suc c) = xs ! h # ring xs (Suc h mod length xs) c"
proof -
  have "[0..<Suc c] = 0 # map Suc [0..<c]"
    by (simp add: upt_conv_Cons map_Suc_upt del: upt_Suc)
  then show ?thesis
    using assms by (simp add: ring_def mod_simps del: upt_Suc)
qed

lemma ring_overwrite:
  assumes "h < length xs"
  shows "ring (xs[h := v]) (Suc h mod length xs) (length xs) = tl (ring xs h (length xs)) @ [v]"
proof -
  let ?N = "length xs"
  obtain m where m: "?N = Suc m" using assms by (cases "?N") auto
  have "(Suc h mod ?N + m) mod ?N = (h + ?N) mod ?N"
    using m by (simp add: mod_simps)
  then have wrap: "(Suc h mod ?N + m) mod ?N = h"
    using assms by simp
  have "ring (xs[h := v]) (Suc h mod ?N) (Suc m) = ring xs (Suc h mod ?N) m @ [v]"
    using ring_snoc [of m xs "Suc h mod ?N" v] m wrap by simp
  moreover have "tl (ring xs h (Suc m)) = ring xs (Suc h mod ?N) m"
    using assms by (simp add: ring_Cons)
  ultimately show ?thesis using m by simp
qed


section \<open>Rejection when full and when empty\<close>

text \<open>
  C5. In every buffer state with \<open>count = capacity\<close>, \<open>fifo_push\<close> and \<open>lifo_push\<close> return
  the error indicator (\<^verbatim>\<open>-1\<close>) and the whole struct, so \<open>count\<close>, \<open>head\<close>, \<open>tail\<close> and every
  slot, is as it was. These two are the only pushes with a result to report; the third
  push, \<open>fifo_force_push\<close>, has none.
\<close>

theorem full_rejection:
  "count s = capacity s \<Longrightarrow>
     trb_fifo_push s v = Inr (- 1, s) \<and> trb_lifo_push s v = Inr (- 1, s)"
  by (simp add: trb_fifo_push_def trb_lifo_push_def trb_is_full_def)

theorem full_rejection_witness:
  "count (\<lparr>buf = [1, 2, 3 :: nat], capacity = 3, head = 1, tail = 1, count = 3\<rparr>)
     = capacity (\<lparr>buf = [1, 2, 3 :: nat], capacity = 3, head = 1, tail = 1, count = 3\<rparr>)
   \<and> trb_fifo_push \<lparr>buf = [1, 2, 3 :: nat], capacity = 3, head = 1, tail = 1, count = 3\<rparr> 9
       = Inr (- 1, \<lparr>buf = [1, 2, 3], capacity = 3, head = 1, tail = 1, count = 3\<rparr>)
   \<and> trb_lifo_push \<lparr>buf = [1, 2, 3 :: nat], capacity = 3, head = 1, tail = 1, count = 3\<rparr> 9
       = Inr (- 1, \<lparr>buf = [1, 2, 3], capacity = 3, head = 1, tail = 1, count = 3\<rparr>)"
  using full_rejection
    [of "\<lparr>buf = [1, 2, 3 :: nat], capacity = 3, head = 1, tail = 1, count = 3\<rparr>" 9]
  by simp

text \<open>
  C6. In every buffer state with \<open>count = 0\<close>, each of \<open>fifo_pop\<close>, \<open>fifo_peek\<close>,
  \<open>lifo_pop\<close> and \<open>lifo_peek\<close> returns the error indicator (\<^verbatim>\<open>-1\<close>), the struct as it was
  and the caller's output location as it was.
\<close>

theorem empty_rejection:
  "count s = 0 \<Longrightarrow>
     trb_fifo_pop s out = Inr (- 1, s, out) \<and> trb_fifo_peek s out = Inr (- 1, s, out) \<and>
     trb_lifo_pop s out = Inr (- 1, s, out) \<and> trb_lifo_peek s out = Inr (- 1, s, out)"
  by (simp add: trb_fifo_pop_def trb_fifo_peek_def trb_lifo_pop_def trb_lifo_peek_def
      trb_is_empty_def)

theorem empty_rejection_witness:
  "count (\<lparr>buf = [1, 2, 3 :: nat], capacity = 3, head = 2, tail = 2, count = 0\<rparr>) = 0
   \<and> trb_fifo_pop \<lparr>buf = [1, 2, 3 :: nat], capacity = 3, head = 2, tail = 2, count = 0\<rparr> 7
       = Inr (- 1, \<lparr>buf = [1, 2, 3], capacity = 3, head = 2, tail = 2, count = 0\<rparr>, 7)
   \<and> trb_fifo_peek \<lparr>buf = [1, 2, 3 :: nat], capacity = 3, head = 2, tail = 2, count = 0\<rparr> 7
       = Inr (- 1, \<lparr>buf = [1, 2, 3], capacity = 3, head = 2, tail = 2, count = 0\<rparr>, 7)
   \<and> trb_lifo_pop \<lparr>buf = [1, 2, 3 :: nat], capacity = 3, head = 2, tail = 2, count = 0\<rparr> 7
       = Inr (- 1, \<lparr>buf = [1, 2, 3], capacity = 3, head = 2, tail = 2, count = 0\<rparr>, 7)
   \<and> trb_lifo_peek \<lparr>buf = [1, 2, 3 :: nat], capacity = 3, head = 2, tail = 2, count = 0\<rparr> 7
       = Inr (- 1, \<lparr>buf = [1, 2, 3], capacity = 3, head = 2, tail = 2, count = 0\<rparr>, 7)"
  using empty_rejection
    [of "\<lparr>buf = [1, 2, 3 :: nat], capacity = 3, head = 2, tail = 2, count = 0\<rparr>" 7]
  by simp


section \<open>The count, the storage and the head index under any calls\<close>

lemma exec_count_inv:
  assumes "count_inv s" and "exec x s out = Inr (r, s', out')"
  shows "count_inv s'"
proof -
  have up: "count s \<noteq> capacity s \<Longrightarrow> count s + 1 \<le> capacity s"
    using assms(1) by (simp add: count_inv_def inc_le)
  have down: "count s \<noteq> 0 \<Longrightarrow> count s - 1 \<le> capacity s"
    using assms(1) word_pred_le [of "count s" "capacity s"] by (simp add: count_inv_def)
  show ?thesis
    using assms up down
    by (cases x) (auto simp: trb_defs count_inv_def Let_def split: if_splits)
qed

lemma shape_inv_init: "shape_inv N (TRB_RB_DEFINE z N)"
  by (simp add: shape_inv_def TRB_RB_DEFINE_def)

lemma exec_shape_inv:
  "shape_inv N s \<Longrightarrow> exec x s out = Inr (r, s', out') \<Longrightarrow> shape_inv N s'"
  by (cases x) (auto simp: trb_defs shape_inv_def Let_def split: if_splits)

lemma run_shape_inv:
  assumes "run ops (TRB_RB_DEFINE z N) out = Inr (log, s, out')"
  shows "shape_inv N s"
proof -
  have "list_all (\<lambda>x. True) ops" by (simp add: list_all_iff)
  with shape_inv_init [of N z] show ?thesis
    using assms by (rule run_invariant [where P = "shape_inv N", rotated]) (rule exec_shape_inv)
qed

lemma exec_head_le:
  assumes "head_le s" and "exec x s out = Inr (r, s', out')"
  shows "head_le s'"
proof -
  have up: "unat (head s) < length (buf s) \<Longrightarrow> head s + 1 \<le> capacity s"
    using assms(1) by (simp add: head_le_def inc_le word_less_nat_alt)
  have down: "unat (head s - 1) < length (buf s) \<Longrightarrow> head s - 1 \<le> capacity s"
    using assms(1) by (simp add: head_le_def word_le_nat_alt)
  have wrap: "capacity s \<noteq> 0 \<Longrightarrow> (head s + 1) mod capacity s \<le> capacity s"
    using word_mod_less [of "capacity s" "head s + 1"] by simp
  show ?thesis
    using assms up down wrap
    by (cases x) (auto simp: trb_defs head_le_def Let_def split: if_splits)
qed

lemma exec_capacity:
  "exec x s out = Inr (r, s', out') \<Longrightarrow> capacity s' = capacity s"
  by (cases x) (auto simp: trb_defs Let_def split: if_splits)

lemma exec_head_fifo:
  assumes "head_le s" and "fifo_op x" and "exec x s out = Inr (r, s', out')"
  shows "(head s' < capacity s') = (\<not> (head s = capacity s \<and> head s' = head s))"
proof -
  from assms(1) have le: "head s \<le> capacity s" by (simp add: head_le_def)
  have same: "(head s < capacity s) = (head s \<noteq> capacity s)"
    using le by auto
  have wrap: "capacity s \<noteq> 0 \<longrightarrow> (head s + 1) mod capacity s < capacity s"
    using word_mod_less [of "capacity s" "head s + 1"] by simp
  have wrap': "capacity s \<noteq> 0 \<and> head s = capacity s \<longrightarrow> (head s + 1) mod capacity s \<noteq> head s"
    using wrap by auto
  have zero: "(0 < capacity s) = (\<not> (head s = capacity s \<and> 0 = head s))"
  proof (cases "capacity s = 0")
    case True
    with le show ?thesis by simp
  next
    case False
    then show ?thesis by (auto simp: word_neq_0_conv)
  qed
  show ?thesis
    using assms(2,3) same wrap wrap' zero
    by (cases x) (auto simp: trb_defs Let_def split: if_splits)
qed

lemma exec_head_top:
  assumes "head_le s" and "exec x s out = Inr (r, s', out')"
    and "head s' = capacity s'" and "head s \<noteq> capacity s"
  shows "\<exists>v. x = Lifo_push v"
proof (cases "fifo_op x")
  case True
  from exec_head_fifo [OF assms(1) True assms(2)] assms(3,4) show ?thesis by simp
next
  case False
  from assms(1) have l: "length (buf s) = unat (capacity s)" by (simp add: head_le_def)
  have "unat (head s - 1) < length (buf s) \<longrightarrow> head s - 1 \<noteq> capacity s"
    using l by auto
  with False assms(2,3,4) show ?thesis
    by (cases x) (auto simp: trb_defs split: if_splits)
qed

lemma exec_since_flush:
  assumes "head_le s" and "0 < capacity s" and "b \<longrightarrow> head s < capacity s"
    and "exec x s out = Inr (r, s', out')"
  shows "since_flush b x \<longrightarrow> head s' < capacity s'"
proof (cases "fifo_op x")
  case True
  note iff = exec_head_fifo [OF assms(1) True assms(4)]
  have "x = Flush \<longrightarrow> head s' < capacity s'"
    using assms(2,4) by (auto simp: trb_flush_def)
  moreover have "x \<noteq> Flush \<longrightarrow> since_flush b x = b"
    using True by (cases x) auto
  ultimately show ?thesis using iff assms(3) by auto
next
  case False
  from assms(1) have l: "length (buf s) = unat (capacity s)" by (simp add: head_le_def)
  have "unat (head s - 1) < length (buf s) \<longrightarrow> head s - 1 < capacity s"
    using l by (simp add: word_less_nat_alt)
  with False assms(3,4) show ?thesis
    by (cases x) (auto simp: trb_defs split: if_splits)
qed

lemma run_since_flush:
  "head_le s \<Longrightarrow> 0 < capacity s \<Longrightarrow> (b \<longrightarrow> head s < capacity s) \<Longrightarrow>
     run ops s out = Inr (log, t, out') \<Longrightarrow>
     foldl since_flush b ops \<longrightarrow> head t < capacity t"
proof (induction ops arbitrary: s b out log)
  case Nil
  then show ?case by simp
next
  case (Cons x xs)
  from Cons.prems(4) obtain r s1 out1 log1 where
    e: "exec x s out = Inr (r, s1, out1)" and r: "run xs s1 out1 = Inr (log1, t, out')"
    unfolding run_Cons_Inr by blast
  from exec_head_le [OF Cons.prems(1) e] have 1: "head_le s1" .
  from exec_capacity [OF e] Cons.prems(2) have 2: "0 < capacity s1" by simp
  from exec_since_flush [OF Cons.prems(1,2,3) e]
  have 3: "since_flush b x \<longrightarrow> head s1 < capacity s1" .
  from Cons.IH [OF 1 2 3 r] show ?case by simp
qed

lemma run_head_le:
  assumes "run ops (TRB_RB_DEFINE z N) out = Inr (log, s, out')"
  shows "head_le s"
proof -
  have "head_le (TRB_RB_DEFINE z N)"
    by (simp add: head_le_def TRB_RB_DEFINE_def)
  moreover have "list_all (\<lambda>x. True) ops" by (simp add: list_all_iff)
  ultimately show ?thesis
    using assms by (rule run_invariant [where P = head_le, rotated]) (rule exec_head_le)
qed

text \<open>
  C4, as the header has it. From the initial state, after any calls in any order (pushes,
  force-pushes, pops and peeks of both disciplines, flush, the queries),
  \<open>0 \<le> count \<le> capacity\<close> at every point up to which no access fell outside the
  storage. The statement is about every prefix \<open>take n ops\<close> that \<open>run\<close> completes.
\<close>

theorem capacity_invariant:
  "run (take n ops) (TRB_RB_DEFINE z N) out = Inr (log, s, out') \<Longrightarrow>
     0 \<le> unat (count s) \<and> count s \<le> capacity s"
proof -
  assume r: "run (take n ops) (TRB_RB_DEFINE z N) out = Inr (log, s, out')"
  have "count_inv (TRB_RB_DEFINE z N)"
    by (simp add: count_inv_def TRB_RB_DEFINE_def)
  moreover have "list_all (\<lambda>x. True) (take n ops)"
    by (simp add: list_all_iff)
  ultimately have "count_inv s"
    using r by (rule run_invariant [where P = count_inv, rotated]) (rule exec_count_inv)
  then show ?thesis by (simp add: count_inv_def)
qed

theorem capacity_invariant_witness:
  "run (take 5 [Fifo_push (1::nat), Lifo_push 2, Fifo_force_push 3, Fifo_force_push 4,
               Lifo_pop, Flush]) (TRB_RB_DEFINE 0 3) 0
     = Inr ([(Code 0, 0), (Code 0, 0), (Void, 0), (Void, 0), (Code 0, 3)],
            \<lparr>buf = [2, 3, 4], capacity = 3, head = 1, tail = 0, count = 2\<rparr>, 3) \<and>
   0 \<le> unat (count \<lparr>buf = [2, 3, 4 :: nat], capacity = 3, head = 1, tail = 0, count = 2\<rparr>) \<and>
   count \<lparr>buf = [2, 3, 4 :: nat], capacity = 3, head = 1, tail = 0, count = 2\<rparr>
     \<le> capacity \<lparr>buf = [2, 3, 4 :: nat], capacity = 3, head = 1, tail = 0, count = 2\<rparr>"
proof -
  have r: "run (take 5 [Fifo_push (1::nat), Lifo_push 2, Fifo_force_push 3, Fifo_force_push 4,
                        Lifo_pop, Flush]) (TRB_RB_DEFINE 0 3) 0
     = Inr ([(Code 0, 0), (Code 0, 0), (Void, 0), (Void, 0), (Code 0, 3)],
            \<lparr>buf = [2, 3, 4], capacity = 3, head = 1, tail = 0, count = 2\<rparr>, 3)"
    by code_simp
  from r capacity_invariant [OF r] show ?thesis by (rule conjI)
qed

text \<open>
  Not every interleaving stays inside the storage, so the invariant cannot be had of
  every sequence. On a buffer of capacity 3, a \<open>fifo_push\<close>, a \<open>fifo_pop\<close> and two
  \<open>lifo_push\<close> calls leave \<open>head = 3\<close> and \<open>count = 2\<close>. The next \<open>lifo_push\<close> finds the
  buffer not full and copies its element to \<^verbatim>\<open>buf[3]\<close>, past the last slot: C gives the
  struct no value after that write.
\<close>

theorem capacity_invariant_counterexample:
  "run [Fifo_push (1::nat), Fifo_pop, Lifo_push 2, Lifo_push 3] (TRB_RB_DEFINE 0 3) 0
     = Inr ([(Code 0, 0), (Code 0, 1), (Code 0, 1), (Code 0, 1)],
            \<lparr>buf = [1, 2, 3], capacity = 3, head = 3, tail = 1, count = 2\<rparr>, 1) \<and>
   trb_lifo_push \<lparr>buf = [1, 2, 3 :: nat], capacity = 3, head = 3, tail = 1, count = 2\<rparr> 4
     = Inl OutOfBounds \<and>
   run [Fifo_push (1::nat), Fifo_pop, Lifo_push 2, Lifo_push 3, Lifo_push 4] (TRB_RB_DEFINE 0 3) 0
     = Inl OutOfBounds"
  by code_simp

text \<open>
  C9, as the header has it. From the initial state, after any calls in any order whose
  accesses all fall inside the storage, \<open>head \<le> capacity\<close> at every point, and \<open>head\<close>
  comes to equal \<open>capacity\<close> by a \<open>lifo_push\<close> only. After a FIFO call (also flush or a
  query) \<open>head < capacity\<close>, except where \<open>head = capacity\<close> held before the call and the
  call left \<open>head\<close> as it was. On a buffer of capacity at least 1, \<open>head < capacity\<close> at
  every point up to which no \<open>lifo_push\<close> was called since the last flush or, without a
  flush, since the start.
\<close>

theorem head_range:
  assumes "run ops (TRB_RB_DEFINE z N) out = Inr (log, s, out1)"
    and "exec x s out1 = Inr (r, s', out2)"
  shows "head s \<le> capacity s \<and> head s' \<le> capacity s' \<and>
         (head s' = capacity s' \<and> head s \<noteq> capacity s \<longrightarrow> (\<exists>v. x = Lifo_push v)) \<and>
         (fifo_op x \<longrightarrow>
            (head s' < capacity s') = (\<not> (head s = capacity s \<and> head s' = head s))) \<and>
         (0 < N \<and> push_free ops \<longrightarrow> head s < capacity s) \<and>
         (0 < N \<and> push_free (ops @ [x]) \<longrightarrow> head s' < capacity s')"
proof -
  note i = run_head_le [OF assms(1)]
  note i' = exec_head_le [OF i assms(2)]
  from run_shape_inv [OF assms(1)] have c: "capacity s = N" by (simp add: shape_inv_def)
  have init: "head_le (TRB_RB_DEFINE z N)" "capacity (TRB_RB_DEFINE z N) = N"
    "head (TRB_RB_DEFINE z N) = 0"
    by (simp_all add: head_le_def TRB_RB_DEFINE_def)
  have p: "push_free ops \<longrightarrow> head s < capacity s" if "0 < N"
    using run_since_flush [OF init(1) _ _ assms(1), of True] that init(2,3)
    by (simp add: push_free_def)
  have p': "push_free (ops @ [x]) \<longrightarrow> head s' < capacity s'" if "0 < N"
    using exec_since_flush [OF i _ _ assms(2), of "push_free ops"] p [OF that] that c
    by (simp add: push_free_def)
  from i i' have "head s \<le> capacity s" "head s' \<le> capacity s'"
    by (simp_all add: head_le_def)
  moreover have "head s' = capacity s' \<and> head s \<noteq> capacity s \<longrightarrow> (\<exists>v. x = Lifo_push v)"
    using exec_head_top [OF i assms(2)] by blast
  moreover have "fifo_op x \<longrightarrow>
      (head s' < capacity s') = (\<not> (head s = capacity s \<and> head s' = head s))"
    using exec_head_fifo [OF i _ assms(2)] by blast
  ultimately show ?thesis using p p' by blast
qed

theorem head_range_witness:
  "run [Lifo_push (1::nat), Lifo_push 2, Lifo_push 3, Flush] (TRB_RB_DEFINE 0 3) 0
     = Inr ([(Code 0, 0), (Code 0, 0), (Code 0, 0), (Void, 0)],
            \<lparr>buf = [1, 2, 3], capacity = 3, head = 0, tail = 0, count = 0\<rparr>, 0) \<and>
   exec (Fifo_push 4) \<lparr>buf = [1, 2, 3 :: nat], capacity = 3, head = 0, tail = 0, count = 0\<rparr> 0
     = Inr (Code 0, \<lparr>buf = [4, 2, 3], capacity = 3, head = 0, tail = 1, count = 1\<rparr>, 0) \<and>
   (0::size_t) < 3 \<and> fifo_op (Fifo_push (4::nat)) \<and>
   push_free [Lifo_push (1::nat), Lifo_push 2, Lifo_push 3, Flush] \<and>
   push_free ([Lifo_push (1::nat), Lifo_push 2, Lifo_push 3, Flush] @ [Fifo_push 4]) \<and>
   head \<lparr>buf = [4, 2, 3 :: nat], capacity = 3, head = 0, tail = 1, count = 1\<rparr>
     < capacity \<lparr>buf = [4, 2, 3 :: nat], capacity = 3, head = 0, tail = 1, count = 1\<rparr> \<and>
   run [Lifo_push (1::nat), Lifo_push 2] (TRB_RB_DEFINE 0 3) 0
     = Inr ([(Code 0, 0), (Code 0, 0)],
            \<lparr>buf = [1, 2, 0], capacity = 3, head = 2, tail = 0, count = 2\<rparr>, 0) \<and>
   exec (Lifo_push 3) \<lparr>buf = [1, 2, 0 :: nat], capacity = 3, head = 2, tail = 0, count = 2\<rparr> 0
     = Inr (Code 0, \<lparr>buf = [1, 2, 3], capacity = 3, head = 3, tail = 0, count = 3\<rparr>, 0) \<and>
   head \<lparr>buf = [1, 2, 3 :: nat], capacity = 3, head = 3, tail = 0, count = 3\<rparr>
     = capacity \<lparr>buf = [1, 2, 3 :: nat], capacity = 3, head = 3, tail = 0, count = 3\<rparr> \<and>
   head \<lparr>buf = [1, 2, 0 :: nat], capacity = 3, head = 2, tail = 0, count = 2\<rparr>
     \<noteq> capacity \<lparr>buf = [1, 2, 0 :: nat], capacity = 3, head = 2, tail = 0, count = 2\<rparr> \<and>
   (\<exists>v. Lifo_push (3::nat) = Lifo_push v)"
proof -
  let ?s = "\<lparr>buf = [1, 2, 3 :: nat], capacity = 3, head = 0, tail = 0, count = 0\<rparr>"
  let ?s' = "\<lparr>buf = [4, 2, 3 :: nat], capacity = 3, head = 0, tail = 1, count = 1\<rparr>"
  let ?t = "\<lparr>buf = [1, 2, 0 :: nat], capacity = 3, head = 2, tail = 0, count = 2\<rparr>"
  let ?t' = "\<lparr>buf = [1, 2, 3 :: nat], capacity = 3, head = 3, tail = 0, count = 3\<rparr>"
  have r: "run [Lifo_push (1::nat), Lifo_push 2, Lifo_push 3, Flush] (TRB_RB_DEFINE 0 3) 0
             = Inr ([(Code 0, 0), (Code 0, 0), (Code 0, 0), (Void, 0)], ?s, 0)"
    by code_simp
  have e: "exec (Fifo_push 4) ?s 0 = Inr (Code 0, ?s', 0)" by code_simp
  have n: "(0::size_t) < 3" by simp
  have f: "fifo_op (Fifo_push (4::nat))" by simp
  have p: "push_free [Lifo_push (1::nat), Lifo_push 2, Lifo_push 3, Flush]" by code_simp
  have p': "push_free ([Lifo_push (1::nat), Lifo_push 2, Lifo_push 3, Flush] @ [Fifo_push 4])"
    by code_simp
  from head_range [OF r e] n p' have a: "head ?s' < capacity ?s'" by blast
  have r2: "run [Lifo_push (1::nat), Lifo_push 2] (TRB_RB_DEFINE 0 3) 0
              = Inr ([(Code 0, 0), (Code 0, 0)], ?t, 0)"
    by code_simp
  have e2: "exec (Lifo_push 3) ?t 0 = Inr (Code 0, ?t', 0)" by code_simp
  have h1: "head ?t' = capacity ?t'" by simp
  have h2: "head ?t \<noteq> capacity ?t" by simp
  from head_range [OF r2 e2] h1 h2 have b: "\<exists>v. Lifo_push (3::nat) = Lifo_push v" by blast
  from r e n f p p' a r2 e2 h1 h2 b show ?thesis by (intro conjI)
qed

text \<open>
  \<open>head < capacity\<close> does not hold after every FIFO call of every sequence. On a buffer
  of capacity 3, a \<open>fifo_push\<close> and a \<open>fifo_pop\<close> leave \<open>head = 1\<close> and \<open>count = 0\<close>; two
  \<open>lifo_push\<close> calls then write slots 1 and 2 and leave \<open>head = 3\<close> and \<open>count = 2\<close>; the
  \<open>fifo_push\<close> that follows finds the buffer not full, succeeds, and leaves \<open>head\<close> at 3.
\<close>

theorem head_range_counterexample:
  "run [Fifo_push (1::nat), Fifo_pop, Lifo_push 2, Lifo_push 3, Fifo_push 4] (TRB_RB_DEFINE 0 3) 0
     = Inr ([(Code 0, 0), (Code 0, 1), (Code 0, 1), (Code 0, 1), (Code 0, 1)],
            \<lparr>buf = [1, 4, 3], capacity = 3, head = 3, tail = 2, count = 3\<rparr>, 1) \<and>
   \<not> head \<lparr>buf = [1, 4, 3 :: nat], capacity = 3, head = 3, tail = 2, count = 3\<rparr>
       < capacity \<lparr>buf = [1, 4, 3 :: nat], capacity = 3, head = 3, tail = 2, count = 3\<rparr>"
  by code_simp


section \<open>Flush and peek\<close>

text \<open>
  C7. In every state reached from the initial state of a buffer of capacity at least 1 by
  any calls, flush sets \<open>head\<close>, \<open>tail\<close> and \<open>count\<close> to 0 and leaves the slots and the
  capacity as they are; a second flush changes nothing; and each of the three pushes,
  called right after the flush, writes slot 0 and leaves the indices exactly where the
  same push leaves them on the freshly defined buffer.
\<close>

theorem flush_resets:
  assumes "0 < N" and "run ops (TRB_RB_DEFINE z N) out = Inr (log, s, out')"
  shows "trb_flush s = \<lparr>buf = buf s, capacity = N, head = 0, tail = 0, count = 0\<rparr> \<and>
         trb_flush (trb_flush s) = trb_flush s \<and>
         trb_fifo_push (trb_flush s) v
           = Inr (0, \<lparr>buf = (buf s)[0 := v], capacity = N, head = 0, tail = 1 mod N, count = 1\<rparr>) \<and>
         trb_fifo_push (TRB_RB_DEFINE z N) v
           = Inr (0, \<lparr>buf = (replicate (unat N) z)[0 := v], capacity = N,
                      head = 0, tail = 1 mod N, count = 1\<rparr>) \<and>
         trb_fifo_force_push (trb_flush s) v
           = Inr \<lparr>buf = (buf s)[0 := v], capacity = N, head = 0, tail = 1 mod N, count = 1\<rparr> \<and>
         trb_fifo_force_push (TRB_RB_DEFINE z N) v
           = Inr \<lparr>buf = (replicate (unat N) z)[0 := v], capacity = N,
                  head = 0, tail = 1 mod N, count = 1\<rparr> \<and>
         trb_lifo_push (trb_flush s) v
           = Inr (0, \<lparr>buf = (buf s)[0 := v], capacity = N, head = 1, tail = 0, count = 1\<rparr>) \<and>
         trb_lifo_push (TRB_RB_DEFINE z N) v
           = Inr (0, \<lparr>buf = (replicate (unat N) z)[0 := v], capacity = N,
                      head = 1, tail = 0, count = 1\<rparr>) \<and>
         0 < length (buf s)"
proof -
  from run_shape_inv [OF assms(2)] have c: "capacity s = N" and l: "length (buf s) = unat N"
    by (simp_all add: shape_inv_def)
  from assms(1) have n: "N \<noteq> 0" "0 \<noteq> N" "0 < unat N" by (auto simp: unat_gt_0)
  have fl: "trb_flush s = \<lparr>buf = buf s, capacity = N, head = 0, tail = 0, count = 0\<rparr>"
    using c by (simp add: trb_flush_def)
  show ?thesis
    unfolding fl using n l
    by (simp add: trb_flush_def TRB_RB_DEFINE_def trb_fifo_push_def trb_fifo_force_push_def
        trb_lifo_push_def trb_is_full_def)
qed

theorem flush_resets_witness:
  "(0::size_t) < 3 \<and>
   run [Fifo_push (1::nat), Fifo_push 2, Fifo_pop] (TRB_RB_DEFINE 0 3) 0
     = Inr ([(Code 0, 0), (Code 0, 0), (Code 0, 1)],
            \<lparr>buf = [1, 2, 0], capacity = 3, head = 1, tail = 2, count = 1\<rparr>, 1) \<and>
   trb_flush \<lparr>buf = [1, 2, 0 :: nat], capacity = 3, head = 1, tail = 2, count = 1\<rparr>
     = \<lparr>buf = [1, 2, 0], capacity = 3, head = 0, tail = 0, count = 0\<rparr> \<and>
   trb_fifo_push (trb_flush \<lparr>buf = [1, 2, 0 :: nat], capacity = 3, head = 1, tail = 2, count = 1\<rparr>) 9
     = Inr (0, \<lparr>buf = [9, 2, 0], capacity = 3, head = 0, tail = 1, count = 1\<rparr>) \<and>
   trb_fifo_push (TRB_RB_DEFINE (0::nat) 3) 9
     = Inr (0, \<lparr>buf = [9, 0, 0], capacity = 3, head = 0, tail = 1, count = 1\<rparr>)"
proof -
  let ?s = "\<lparr>buf = [1, 2, 0 :: nat], capacity = 3, head = 1, tail = 2, count = 1\<rparr>"
  have h: "(0::size_t) < 3" by simp
  have r: "run [Fifo_push (1::nat), Fifo_push 2, Fifo_pop] (TRB_RB_DEFINE 0 3) 0
     = Inr ([(Code 0, 0), (Code 0, 0), (Code 0, 1)], ?s, 1)"
    by code_simp
  note t = flush_resets [OF h r, of 9]
  have e1: "(buf ?s)[0 := 9] = [9, 2, 0]" by simp
  have e2: "(replicate (unat (3::size_t)) (0::nat))[0 := 9] = [9, 0, 0]" by code_simp
  have e3: "(1::size_t) mod 3 = 1" by simp
  from t have a: "trb_flush ?s = \<lparr>buf = [1, 2, 0], capacity = 3, head = 0, tail = 0, count = 0\<rparr>"
    by simp
  from t have b: "trb_fifo_push (trb_flush ?s) 9
      = Inr (0, \<lparr>buf = [9, 2, 0], capacity = 3, head = 0, tail = 1, count = 1\<rparr>)"
    unfolding e1 e3 by (rule conjunct1 [OF conjunct2 [OF conjunct2]])
  from t have c: "trb_fifo_push (TRB_RB_DEFINE (0::nat) 3) 9
      = Inr (0, \<lparr>buf = [9, 0, 0], capacity = 3, head = 0, tail = 1, count = 1\<rparr>)"
    unfolding e2 e3 by (rule conjunct1 [OF conjunct2 [OF conjunct2 [OF conjunct2]]])
  from h r a b c show ?thesis by (intro conjI)
qed

text \<open>
  C8. In every non-empty state whose front slot \<open>buf[head]\<close> exists, \<open>fifo_peek\<close> returns
  0 and that slot's value and leaves the struct as it is, and so does a second
  \<open>fifo_peek\<close> right after it: the same value, the same \<open>head\<close>, \<open>tail\<close> and \<open>count\<close>. The
  same holds of \<open>lifo_peek\<close> and the top slot \<open>buf[head - 1]\<close>.
\<close>

theorem peek_idempotent:
  assumes "count s \<noteq> 0"
  shows "(unat (head s) < length (buf s) \<longrightarrow>
            trb_fifo_peek s out = Inr (0, s, buf s ! unat (head s)) \<and>
            run [Fifo_peek, Fifo_peek] s out
              = Inr ([(Code 0, buf s ! unat (head s)), (Code 0, buf s ! unat (head s))],
                     s, buf s ! unat (head s))) \<and>
         (unat (head s - 1) < length (buf s) \<longrightarrow>
            trb_lifo_peek s out = Inr (0, s, buf s ! unat (head s - 1)) \<and>
            run [Lifo_peek, Lifo_peek] s out
              = Inr ([(Code 0, buf s ! unat (head s - 1)), (Code 0, buf s ! unat (head s - 1))],
                     s, buf s ! unat (head s - 1)))"
  using assms by (simp add: trb_fifo_peek_def trb_lifo_peek_def trb_is_empty_def popped_def)

theorem peek_idempotent_witness:
  "count \<lparr>buf = [5, 6, 7 :: nat], capacity = 3, head = 1, tail = 0, count = 2\<rparr> \<noteq> 0 \<and>
   unat (head \<lparr>buf = [5, 6, 7 :: nat], capacity = 3, head = 1, tail = 0, count = 2\<rparr>)
     < length (buf \<lparr>buf = [5, 6, 7 :: nat], capacity = 3, head = 1, tail = 0, count = 2\<rparr>) \<and>
   unat (head \<lparr>buf = [5, 6, 7 :: nat], capacity = 3, head = 1, tail = 0, count = 2\<rparr> - 1)
     < length (buf \<lparr>buf = [5, 6, 7 :: nat], capacity = 3, head = 1, tail = 0, count = 2\<rparr>) \<and>
   run [Fifo_peek, Fifo_peek] \<lparr>buf = [5, 6, 7 :: nat], capacity = 3, head = 1, tail = 0, count = 2\<rparr> 0
     = Inr ([(Code 0, 6), (Code 0, 6)],
            \<lparr>buf = [5, 6, 7], capacity = 3, head = 1, tail = 0, count = 2\<rparr>, 6) \<and>
   run [Lifo_peek, Lifo_peek] \<lparr>buf = [5, 6, 7 :: nat], capacity = 3, head = 1, tail = 0, count = 2\<rparr> 0
     = Inr ([(Code 0, 5), (Code 0, 5)],
            \<lparr>buf = [5, 6, 7], capacity = 3, head = 1, tail = 0, count = 2\<rparr>, 5)"
proof -
  let ?s = "\<lparr>buf = [5, 6, 7 :: nat], capacity = 3, head = 1, tail = 0, count = 2\<rparr>"
  have h: "count ?s \<noteq> 0" by simp
  have i: "unat (head ?s) < length (buf ?s)" by simp
  have j: "unat (head ?s - 1) < length (buf ?s)" by simp
  have e: "buf ?s ! unat (head ?s) = 6" "buf ?s ! unat (head ?s - 1) = 5" by simp_all
  note t = peek_idempotent [OF h, of 0]
  from t i have a: "run [Fifo_peek, Fifo_peek] ?s 0 = Inr ([(Code 0, 6), (Code 0, 6)], ?s, 6)"
    unfolding e by blast
  from t j have b: "run [Lifo_peek, Lifo_peek] ?s 0 = Inr ([(Code 0, 5), (Code 0, 5)], ?s, 5)"
    unfolding e by blast
  from h i j a b show ?thesis by (intro conjI)
qed


section \<open>The LIFO discipline\<close>

lemma lifo_inv_init: "lifo_inv (TRB_RB_DEFINE z N)"
  by (simp add: lifo_inv_def TRB_RB_DEFINE_def)

lemma lifo_push_index:
  assumes "lifo_inv s" and "count s \<noteq> capacity s"
  shows "unat (head s) < length (buf s)"
proof -
  from assms have "count s < capacity s"
    by (simp add: lifo_inv_def le_neq_trans)
  then show ?thesis
    using assms(1) by (simp add: lifo_inv_def word_less_nat_alt)
qed

lemma lifo_pop_index:
  assumes "lifo_inv s" and "count s \<noteq> 0"
  shows "1 \<le> head s \<and> unat (head s - 1) < length (buf s)"
proof -
  from assms have h: "head s \<noteq> 0" and le: "unat (head s) \<le> length (buf s)"
    by (simp_all add: lifo_inv_def word_le_nat_alt)
  from h have "unat (head s - 1) = unat (head s) - 1" by (rule unat_minus_one)
  moreover from h have "0 < unat (head s)" by (simp add: unat_gt_0)
  moreover from h have "1 \<le> head s" by (simp add: word_le_nat_alt unat_gt_0 Suc_leI)
  ultimately show ?thesis using le by simp
qed

lemma exec_lifo_inv:
  assumes "lifo_inv s" and "lifo_op x"
  shows "\<exists>r s' out'. exec x s out = Inr (r, s', out') \<and> lifo_inv s'"
proof -
  have up: "count s \<noteq> capacity s \<longrightarrow> count s + 1 \<le> capacity s"
    using assms(1) by (simp add: lifo_inv_def inc_le le_neq_trans)
  have down: "count s \<noteq> 0 \<longrightarrow> count s - 1 \<le> capacity s"
    using assms(1) word_pred_le [of "count s" "capacity s"] by (auto simp: lifo_inv_def)
  have wr: "count s \<noteq> capacity s \<longrightarrow> unat (head s) < length (buf s)"
    using lifo_push_index [OF assms(1)] by blast
  have rd: "count s \<noteq> 0 \<longrightarrow> unat (head s - 1) < length (buf s)"
    using lifo_pop_index [OF assms(1)] by blast
  show ?thesis
    using assms up down wr rd
    by (cases x) (auto simp: trb_defs lifo_inv_def)
qed

text \<open>
  C10. From the initial state, every sequence of \<open>lifo_push\<close>, \<open>lifo_pop\<close>, \<open>lifo_peek\<close>,
  flush and queries runs to its end without an access outside the storage, and after
  every call \<open>head = count\<close>. So a \<open>lifo_push\<close> that finds the buffer not full writes at
  \<open>head < capacity\<close>, and a \<open>lifo_pop\<close> or \<open>lifo_peek\<close> that finds it not empty reads at
  \<open>head - 1\<close> with \<open>head \<ge> 1\<close>: \<open>head\<close> does not wrap below zero.
\<close>

theorem lifo_safety:
  assumes "lifo_only ops"
  shows "\<exists>log s out'. run (take n ops) (TRB_RB_DEFINE z N) out = Inr (log, s, out') \<and>
           head s = count s \<and> length (buf s) = unat (capacity s) \<and>
           (count s \<noteq> capacity s \<longrightarrow> head s < capacity s \<and> unat (head s) < length (buf s)) \<and>
           (count s \<noteq> 0 \<longrightarrow> 1 \<le> head s \<and> unat (head s - 1) < length (buf s))"
proof -
  from assms have "list_all lifo_op (take n ops)"
    by (simp add: lifo_only_def list_all_take)
  with lifo_inv_init [of z N] obtain log s out' where
    r: "run (take n ops) (TRB_RB_DEFINE z N) out = Inr (log, s, out')" and i: "lifo_inv s"
    using run_total [where P = lifo_inv and A = lifo_op and out = out, OF exec_lifo_inv]
    by blast
  from i have e: "head s = count s" and l: "length (buf s) = unat (capacity s)"
    by (simp_all add: lifo_inv_def)
  from lifo_push_index [OF i] l
  have w: "count s \<noteq> capacity s \<longrightarrow> head s < capacity s \<and> unat (head s) < length (buf s)"
    by (simp add: word_less_nat_alt)
  from r e l w lifo_pop_index [OF i] show ?thesis by blast
qed

theorem lifo_safety_witness:
  "lifo_only [Lifo_push (1::nat), Lifo_push 2, Lifo_pop] \<and>
   run (take 2 [Lifo_push (1::nat), Lifo_push 2, Lifo_pop]) (TRB_RB_DEFINE 0 3) 0
     = Inr ([(Code 0, 0), (Code 0, 0)],
            \<lparr>buf = [1, 2, 0], capacity = 3, head = 2, tail = 0, count = 2\<rparr>, 0) \<and>
   head \<lparr>buf = [1, 2, 0 :: nat], capacity = 3, head = 2, tail = 0, count = 2\<rparr>
     = count \<lparr>buf = [1, 2, 0 :: nat], capacity = 3, head = 2, tail = 0, count = 2\<rparr>"
proof -
  have h: "lifo_only [Lifo_push (1::nat), Lifo_push 2, Lifo_pop]" by code_simp
  have r: "run (take 2 [Lifo_push (1::nat), Lifo_push 2, Lifo_pop]) (TRB_RB_DEFINE 0 3) 0
     = Inr ([(Code 0, 0), (Code 0, 0)],
            \<lparr>buf = [1, 2, 0], capacity = 3, head = 2, tail = 0, count = 2\<rparr>, 0)"
    by code_simp
  from lifo_safety [OF h, of 2 0 3 0] obtain log s out' where
    "run (take 2 [Lifo_push (1::nat), Lifo_push 2, Lifo_pop]) (TRB_RB_DEFINE 0 3) 0
       = Inr (log, s, out')" and e: "head s = count s"
    by blast
  with r have "s = \<lparr>buf = [1, 2, 0], capacity = 3, head = 2, tail = 0, count = 2\<rparr>"
    by simp
  with e h r show ?thesis by blast
qed

lemma lifo_contents_init: "lifo_contents (TRB_RB_DEFINE z N) = []"
  by (simp add: lifo_contents_def TRB_RB_DEFINE_def)

lemma length_lifo_contents: "lifo_inv s \<Longrightarrow> length (lifo_contents s) = unat (count s)"
  by (simp add: lifo_contents_def lifo_inv_def word_le_nat_alt)

lemma lifo_push_sim:
  assumes inv: "lifo_inv s" and nf: "count s \<noteq> capacity s"
  shows "\<exists>s'. trb_lifo_push s v = Inr (0, s') \<and> lifo_inv s' \<and> capacity s' = capacity s \<and>
           lifo_contents s' = v # lifo_contents s"
proof -
  let ?s' = "s\<lparr>buf := (buf s)[unat (head s) := v], head := head s + 1, count := count s + 1\<rparr>"
  note h = lifo_push_index [OF inv nf]
  from inv h have hc: "unat (head s) < unat (capacity s)" by (simp add: lifo_inv_def)
  have "trb_lifo_push s v = Inr (0, ?s')"
    using nf h by (simp add: trb_lifo_push_def trb_is_full_def)
  moreover have "lifo_inv ?s'"
    using inv nf by (simp add: lifo_inv_def inc_le le_neq_trans)
  moreover have "lifo_contents ?s' = v # lifo_contents s"
    using h by (simp add: lifo_contents_def unat_inc [OF hc] take_Suc_conv_app_nth)
  ultimately show ?thesis by simp
qed

lemma lifo_pop_sim:
  assumes inv: "lifo_inv s" and ne: "count s \<noteq> 0"
  shows "\<exists>s'. trb_lifo_pop s out = Inr (0, s', buf s ! unat (head s - 1)) \<and> lifo_inv s' \<and>
           capacity s' = capacity s \<and>
           lifo_contents s = buf s ! unat (head s - 1) # lifo_contents s'"
proof -
  let ?s' = "s\<lparr>head := head s - 1, count := count s - 1\<rparr>"
  from lifo_pop_index [OF inv ne] have h: "unat (head s - 1) < length (buf s)" by simp
  from inv ne have h0: "head s \<noteq> 0" by (simp add: lifo_inv_def)
  then obtain m where m: "unat (head s) = Suc m"
    by (cases "unat (head s)") (auto simp: unat_eq_zero)
  then have m': "unat (head s - 1) = m"
    using h0 by (simp add: unat_minus_one)
  have "trb_lifo_pop s out = Inr (0, ?s', buf s ! unat (head s - 1))"
    using ne h by (simp add: trb_lifo_pop_def trb_is_empty_def)
  moreover have "lifo_inv ?s'"
    using inv ne word_pred_le [of "count s" "capacity s"] by (auto simp: lifo_inv_def)
  moreover have "lifo_contents s = buf s ! unat (head s - 1) # lifo_contents ?s'"
    using h by (simp add: lifo_contents_def m m' take_Suc_conv_app_nth)
  ultimately show ?thesis by simp
qed

lemma lifo_peek_sim:
  assumes inv: "lifo_inv s" and ne: "count s \<noteq> 0"
  shows "trb_lifo_peek s out = Inr (0, s, buf s ! unat (head s - 1)) \<and>
           (\<exists>st. lifo_contents s = buf s ! unat (head s - 1) # st)"
proof -
  obtain s' where "lifo_contents s = buf s ! unat (head s - 1) # lifo_contents s'"
    using lifo_pop_sim [OF inv ne] by blast
  then show ?thesis
    using ne lifo_pop_index [OF inv ne] by (simp add: trb_lifo_peek_def trb_is_empty_def)
qed

lemma lifo_flush_sim:
  assumes "lifo_inv s"
  shows "lifo_inv (trb_flush s) \<and> lifo_contents (trb_flush s) = []"
  using assms by (auto simp: lifo_inv_def lifo_contents_def trb_flush_def)

lemma lifo_empty_iff: "lifo_inv s \<Longrightarrow> lifo_contents s = [] \<longleftrightarrow> count s = 0"
  using length_lifo_contents [of s] by (auto simp: unat_eq_zero)

lemma lifo_full_iff:
  "lifo_inv s \<Longrightarrow> length (lifo_contents s) = unat (capacity s) \<longleftrightarrow> count s = capacity s"
  by (simp add: length_lifo_contents word_unat_eq_iff)

lemma exec_lifo_sim:
  assumes inv: "lifo_inv s" and x: "lifo_op x"
  shows "\<exists>r s' out'. exec x s out = Inr (r, s', out') \<and>
           spec_lifo (unat (capacity s)) x (lifo_contents s) out = Some (r, lifo_contents s', out') \<and>
           lifo_inv s' \<and> capacity s' = capacity s"
proof (cases x)
  case (Lifo_push v)
  show ?thesis
  proof (cases "count s = capacity s")
    case True
    then show ?thesis
      using inv Lifo_push
      by (simp add: pushed_def trb_lifo_push_def trb_is_full_def lifo_full_iff)
  next
    case False
    with lifo_push_sim [OF inv False, of v] show ?thesis
      using inv Lifo_push by (auto simp: pushed_def lifo_full_iff)
  qed
next
  case Lifo_pop
  show ?thesis
  proof (cases "count s = 0")
    case True
    then show ?thesis
      using inv Lifo_pop
      by (simp add: popped_def trb_lifo_pop_def trb_is_empty_def lifo_empty_iff [THEN iffD2])
  next
    case False
    with lifo_pop_sim [OF inv False, of out] show ?thesis
      using Lifo_pop by (auto simp: popped_def)
  qed
next
  case Lifo_peek
  show ?thesis
  proof (cases "count s = 0")
    case True
    then show ?thesis
      using inv Lifo_peek
      by (simp add: popped_def trb_lifo_peek_def trb_is_empty_def lifo_empty_iff [THEN iffD2])
  next
    case False
    with lifo_peek_sim [OF inv False, of out] show ?thesis
      using inv Lifo_peek by (auto simp: popped_def)
  qed
next
  case Flush
  with lifo_flush_sim [OF inv] show ?thesis by (simp add: trb_flush_def)
next
  case Is_empty
  then show ?thesis
    using inv by (simp add: trb_is_empty_def length_lifo_contents unat_eq_zero)
next
  case Is_full
  then show ?thesis
    using inv by (simp add: trb_is_full_def lifo_full_iff)
next
  case Size
  then show ?thesis
    using inv by (simp add: trb_size_def length_lifo_contents)
next
  case Capacity
  then show ?thesis
    using inv by (simp add: trb_capacity_def)
next
  case Remaining
  from inv have "unat (count s) \<le> unat (capacity s)" by (simp add: lifo_inv_def word_le_nat_alt)
  then have "(of_nat (unat (capacity s) - unat (count s)) :: size_t) = capacity s - count s"
    by simp
  with Remaining show ?thesis
    using inv by (simp add: trb_remaining_def length_lifo_contents)
qed (use x in simp_all)

lemma run_lifo_sim:
  assumes "lifo_inv s" and "list_all lifo_op ops"
  shows "\<exists>log s' out'. run ops s out = Inr (log, s', out') \<and>
           spec_lifo_run (unat (capacity s)) ops (lifo_contents s) out
             = Some (log, lifo_contents s', out') \<and>
           lifo_inv s' \<and> capacity s' = capacity s"
  using assms
proof (induction ops arbitrary: s out)
  case Nil
  then show ?case by simp
next
  case (Cons x xs)
  from Cons.prems obtain r s1 out1 where
    e: "exec x s out = Inr (r, s1, out1)"
    and a: "spec_lifo (unat (capacity s)) x (lifo_contents s) out = Some (r, lifo_contents s1, out1)"
    and i: "lifo_inv s1" and c: "capacity s1 = capacity s"
    using exec_lifo_sim [of s x out] by auto
  from Cons.IH [OF i, of out1] Cons.prems(2) obtain log s' out' where
    "run xs s1 out1 = Inr (log, s', out')"
    "spec_lifo_run (unat (capacity s1)) xs (lifo_contents s1) out1 = Some (log, lifo_contents s', out')"
    "lifo_inv s'" "capacity s' = capacity s1"
    by auto
  with e a c show ?case by simp
qed

lemma lifo_reachable:
  assumes "lifo_only ops" and "run ops (TRB_RB_DEFINE z N) out = Inr (log, s, out')"
  shows "lifo_inv s \<and> capacity s = N \<and>
           spec_lifo_run (unat N) ops [] out = Some (log, lifo_contents s, out')"
proof -
  have "capacity (TRB_RB_DEFINE z N) = N" by (simp add: TRB_RB_DEFINE_def)
  with run_lifo_sim [OF lifo_inv_init, of ops z N out] assms
  show ?thesis by (auto simp: lifo_only_def lifo_contents_init)
qed

lemma lifo_three:
  assumes inv: "lifo_inv s" and cap: "3 \<le> capacity s" and emp: "count s = 0"
  shows "\<exists>s'. run [Lifo_push v1, Lifo_push v2, Lifo_push v3, Lifo_pop, Lifo_pop, Lifo_pop] s out
           = Inr ([(Code 0, out), (Code 0, out), (Code 0, out),
                   (Code 0, v3), (Code 0, v2), (Code 0, v1)], s', v1)"
proof -
  let ?ops = "[Lifo_push v1, Lifo_push v2, Lifo_push v3, Lifo_pop, Lifo_pop, Lifo_pop]"
  have "list_all lifo_op ?ops" by simp
  from run_lifo_sim [OF inv this, of out] obtain log s' out' where
    r: "run ?ops s out = Inr (log, s', out')" and
    a: "spec_lifo_run (unat (capacity s)) ?ops (lifo_contents s) out
          = Some (log, lifo_contents s', out')"
    by blast
  from emp have "lifo_contents s = []" using inv by (simp add: lifo_empty_iff)
  with a three_le [OF cap] have
    "log = [(Code 0, out), (Code 0, out), (Code 0, out), (Code 0, v3), (Code 0, v2), (Code 0, v1)]"
    "out' = v1"
    by auto
  with r show ?thesis by blast
qed

text \<open>
  C2. From the initial state, every sequence of LIFO calls, flush and queries runs to its
  end, and every call returns what the bounded stack \<open>spec_lifo\<close> returns: each successful
  \<open>lifo_pop\<close> yields the most recently pushed element not yet popped. In particular, in
  every empty state so reached, with capacity at least 3, the pushes of \<open>v1\<close>, \<open>v2\<close>, \<open>v3\<close>
  all return 0 and the three pops that follow return 0 with \<open>v3\<close>, \<open>v2\<close>, \<open>v1\<close>.
\<close>

theorem lifo_order:
  assumes "lifo_only ops"
  shows "\<exists>log s out'.
           run ops (TRB_RB_DEFINE z N) out = Inr (log, s, out') \<and>
           spec_lifo_run (unat N) ops [] out = Some (log, lifo_contents s, out') \<and>
           (3 \<le> N \<and> count s = 0 \<longrightarrow>
              (\<exists>s'. run [Lifo_push v1, Lifo_push v2, Lifo_push v3, Lifo_pop, Lifo_pop, Lifo_pop]
                       s out'
                     = Inr ([(Code 0, out'), (Code 0, out'), (Code 0, out'),
                             (Code 0, v3), (Code 0, v2), (Code 0, v1)], s', v1)))"
proof -
  from assms have "list_all lifo_op ops" by (simp add: lifo_only_def)
  from run_lifo_sim [OF lifo_inv_init this, of z N out] obtain log s out' where
    r: "run ops (TRB_RB_DEFINE z N) out = Inr (log, s, out')" by blast
  from lifo_reachable [OF assms r] have
    i: "lifo_inv s" and c: "capacity s = N" and
    a: "spec_lifo_run (unat N) ops [] out = Some (log, lifo_contents s, out')"
    by simp_all
  from i c lifo_three [of s v1 v2 v3 out'] have
    "3 \<le> N \<and> count s = 0 \<longrightarrow>
       (\<exists>s'. run [Lifo_push v1, Lifo_push v2, Lifo_push v3, Lifo_pop, Lifo_pop, Lifo_pop] s out'
              = Inr ([(Code 0, out'), (Code 0, out'), (Code 0, out'),
                      (Code 0, v3), (Code 0, v2), (Code 0, v1)], s', v1))"
    by simp
  with r a show ?thesis by blast
qed

theorem lifo_order_witness:
  "lifo_only [Lifo_push (7::nat), Lifo_pop] \<and>
   run [Lifo_push (7::nat), Lifo_pop] (TRB_RB_DEFINE 0 3) 0
     = Inr ([(Code 0, 0), (Code 0, 7)],
            \<lparr>buf = [7, 0, 0], capacity = 3, head = 0, tail = 0, count = 0\<rparr>, 7) \<and>
   spec_lifo_run 3 [Lifo_push (7::nat), Lifo_pop] [] 0 = Some ([(Code 0, 0), (Code 0, 7)], [], 7) \<and>
   (3::size_t) \<le> 3 \<and>
   count \<lparr>buf = [7, 0, 0 :: nat], capacity = 3, head = 0, tail = 0, count = 0\<rparr> = 0 \<and>
   (\<exists>s'. run [Lifo_push 1, Lifo_push 2, Lifo_push 3, Lifo_pop, Lifo_pop, Lifo_pop]
            \<lparr>buf = [7, 0, 0 :: nat], capacity = 3, head = 0, tail = 0, count = 0\<rparr> 7
          = Inr ([(Code 0, 7), (Code 0, 7), (Code 0, 7), (Code 0, 3), (Code 0, 2), (Code 0, 1)],
                 s', 1))"
proof -
  let ?s0 = "\<lparr>buf = [7, 0, 0 :: nat], capacity = 3, head = 0, tail = 0, count = 0\<rparr>"
  have h: "lifo_only [Lifo_push (7::nat), Lifo_pop]" by code_simp
  have r: "run [Lifo_push (7::nat), Lifo_pop] (TRB_RB_DEFINE 0 3) 0
             = Inr ([(Code 0, 0), (Code 0, 7)], ?s0, 7)"
    by code_simp
  have a: "spec_lifo_run 3 [Lifo_push (7::nat), Lifo_pop] [] 0
             = Some ([(Code 0, 0), (Code 0, 7)], [], 7)"
    by code_simp
  from lifo_order [OF h, of 0 3 0 1 2 3] r
  have "\<exists>s'. run [Lifo_push 1, Lifo_push 2, Lifo_push 3, Lifo_pop, Lifo_pop, Lifo_pop] ?s0 7
          = Inr ([(Code 0, 7), (Code 0, 7), (Code 0, 7), (Code 0, 3), (Code 0, 2), (Code 0, 1)],
                 s', 1)"
    by simp
  with h r a show ?thesis by simp
qed


section \<open>The FIFO discipline\<close>

lemma fifo_inv_init: "0 < N \<Longrightarrow> fifo_inv (TRB_RB_DEFINE z N)"
  by (simp add: fifo_inv_def TRB_RB_DEFINE_def unat_gt_0)

lemma fifo_contents_init: "fifo_contents (TRB_RB_DEFINE z N) = []"
  by (simp add: fifo_contents_def TRB_RB_DEFINE_def ring_0)

lemma length_fifo_contents: "length (fifo_contents s) = unat (count s)"
  by (simp add: fifo_contents_def length_ring)

lemma fifo_inv_slots:
  assumes "fifo_inv s"
  shows "capacity s \<noteq> 0" and "unat (head s) < length (buf s)" and "unat (tail s) < length (buf s)"
  using assms by (auto simp: fifo_inv_def)

lemma fifo_not_full:
  assumes "fifo_inv s" and "count s \<noteq> capacity s"
  shows "unat (count s) < unat (capacity s)"
  using assms by (auto simp: fifo_inv_def word_unat_eq_iff)

lemma fifo_push_sim:
  assumes inv: "fifo_inv s" and nf: "count s \<noteq> capacity s"
  shows "\<exists>s'. trb_fifo_push s v = Inr (0, s') \<and> fifo_inv s' \<and> capacity s' = capacity s \<and>
           fifo_contents s' = fifo_contents s @ [v]"
proof -
  let ?s' = "s\<lparr>buf := (buf s)[unat (tail s) := v],
                tail := (tail s + 1) mod capacity s, count := count s + 1\<rparr>"
  note c = fifo_not_full [OF inv nf]
  from inv have len: "length (buf s) = unat (capacity s)"
    and t: "unat (tail s) = (unat (head s) + unat (count s)) mod length (buf s)"
    and tlt: "unat (tail s) < unat (capacity s)"
    by (auto simp: fifo_inv_def)
  have "trb_fifo_push s v = Inr (0, ?s')"
    using nf fifo_inv_slots [OF inv] by (simp add: trb_fifo_push_def trb_is_full_def)
  moreover have "fifo_inv ?s'"
    using inv c tlt
    by (simp add: fifo_inv_def unat_inc [OF c] unat_inc_mod [OF tlt] mod_simps)
  moreover have "fifo_contents ?s' = fifo_contents s @ [v]"
    using c ring_snoc [of "unat (count s)" "buf s" "unat (head s)" v]
    by (simp add: fifo_contents_def unat_inc [OF c] t len)
  ultimately show ?thesis by simp
qed

lemma fifo_force_push_sim:
  assumes inv: "fifo_inv s"
  shows "\<exists>s'. trb_fifo_force_push s v = Inr s' \<and> fifo_inv s' \<and> capacity s' = capacity s \<and>
           fifo_contents s' =
             (if count s = capacity s then tl (fifo_contents s) else fifo_contents s) @ [v]"
proof (cases "count s = capacity s")
  case False
  obtain s' where "trb_fifo_push s v = Inr (0, s')" and s': "fifo_inv s'"
    "capacity s' = capacity s" "fifo_contents s' = fifo_contents s @ [v]"
    using fifo_push_sim [OF inv False] by blast
  then have "trb_fifo_force_push s v = Inr s'"
    using False
    by (auto simp: trb_fifo_push_def trb_fifo_force_push_def trb_is_full_def split: if_splits)
  with s' False show ?thesis by simp
next
  case True
  let ?s' = "s\<lparr>buf := (buf s)[unat (tail s) := v],
                tail := (tail s + 1) mod capacity s, head := (head s + 1) mod capacity s\<rparr>"
  from inv have len: "length (buf s) = unat (capacity s)"
    and hlt: "unat (head s) < unat (capacity s)"
    by (auto simp: fifo_inv_def)
  from inv True hlt have t: "unat (tail s) = unat (head s)"
    by (simp add: fifo_inv_def)
  have "trb_fifo_force_push s v = Inr ?s'"
    using True fifo_inv_slots [OF inv] by (simp add: trb_fifo_force_push_def trb_is_full_def)
  moreover have "fifo_inv ?s'"
    using inv True hlt t
    by (simp add: fifo_inv_def unat_inc_mod [of _ "capacity s"])
  moreover have "fifo_contents ?s' = tl (fifo_contents s) @ [v]"
    using hlt ring_overwrite [of "unat (head s)" "buf s" v] True
    by (simp add: fifo_contents_def unat_inc_mod [OF hlt] t len)
  ultimately show ?thesis using True by simp
qed

lemma fifo_pop_sim:
  assumes inv: "fifo_inv s" and ne: "count s \<noteq> 0"
  shows "\<exists>s'. trb_fifo_pop s out = Inr (0, s', buf s ! unat (head s)) \<and> fifo_inv s' \<and>
           capacity s' = capacity s \<and>
           fifo_contents s = buf s ! unat (head s) # fifo_contents s'"
proof -
  let ?s' = "s\<lparr>head := (head s + 1) mod capacity s, count := count s - 1\<rparr>"
  from inv have len: "length (buf s) = unat (capacity s)"
    and hlt: "unat (head s) < unat (capacity s)"
    by (auto simp: fifo_inv_def)
  from ne obtain m where m: "unat (count s) = Suc m"
    by (cases "unat (count s)") (auto simp: unat_eq_zero)
  then have m': "unat (count s - 1) = m"
    using ne by (simp add: unat_minus_one)
  have "trb_fifo_pop s out = Inr (0, ?s', buf s ! unat (head s))"
    using ne fifo_inv_slots [OF inv] by (simp add: trb_fifo_pop_def trb_is_empty_def)
  moreover have "fifo_inv ?s'"
    using inv hlt m
    by (simp add: fifo_inv_def unat_inc_mod [OF hlt] m' mod_simps)
  moreover have "fifo_contents s = buf s ! unat (head s) # fifo_contents ?s'"
    using hlt ring_Cons [of "unat (head s)" "buf s" m]
    by (simp add: fifo_contents_def unat_inc_mod [OF hlt] m m' len)
  ultimately show ?thesis by simp
qed

lemma fifo_peek_sim:
  assumes inv: "fifo_inv s" and ne: "count s \<noteq> 0"
  shows "trb_fifo_peek s out = Inr (0, s, buf s ! unat (head s)) \<and>
           (\<exists>q. fifo_contents s = buf s ! unat (head s) # q)"
proof -
  obtain s' where "fifo_contents s = buf s ! unat (head s) # fifo_contents s'"
    using fifo_pop_sim [OF inv ne] by blast
  then show ?thesis
    using ne fifo_inv_slots [OF inv] by (simp add: trb_fifo_peek_def trb_is_empty_def)
qed

lemma fifo_flush_sim:
  assumes "fifo_inv s"
  shows "fifo_inv (trb_flush s) \<and> fifo_contents (trb_flush s) = []"
  using assms by (auto simp: fifo_inv_def fifo_contents_def trb_flush_def ring_0)

lemma fifo_empty_iff: "fifo_contents s = [] \<longleftrightarrow> count s = 0"
  using length_fifo_contents [of s] by (auto simp: unat_eq_zero)

lemma fifo_full_iff: "length (fifo_contents s) = unat (capacity s) \<longleftrightarrow> count s = capacity s"
  by (simp add: length_fifo_contents word_unat_eq_iff)

lemma exec_fifo_sim:
  assumes inv: "fifo_inv s" and x: "fifo_op x"
  shows "\<exists>r s' out'. exec x s out = Inr (r, s', out') \<and>
           spec_fifo (unat (capacity s)) x (fifo_contents s) out = Some (r, fifo_contents s', out') \<and>
           fifo_inv s' \<and> capacity s' = capacity s"
proof (cases x)
  case (Fifo_push v)
  show ?thesis
  proof (cases "count s = capacity s")
    case True
    then show ?thesis
      using inv Fifo_push by (simp add: pushed_def trb_fifo_push_def trb_is_full_def fifo_full_iff)
  next
    case False
    with fifo_push_sim [OF inv False, of v] show ?thesis
      using Fifo_push by (auto simp: pushed_def fifo_full_iff)
  qed
next
  case (Fifo_force_push v)
  with fifo_force_push_sim [OF inv, of v] show ?thesis
    by (auto simp: fifo_full_iff)
next
  case Fifo_pop
  show ?thesis
  proof (cases "count s = 0")
    case True
    then show ?thesis
      using inv Fifo_pop
      by (simp add: popped_def trb_fifo_pop_def trb_is_empty_def fifo_empty_iff [THEN iffD2])
  next
    case False
    with fifo_pop_sim [OF inv False, of out] show ?thesis
      using Fifo_pop by (auto simp: popped_def)
  qed
next
  case Fifo_peek
  show ?thesis
  proof (cases "count s = 0")
    case True
    then show ?thesis
      using inv Fifo_peek
      by (simp add: popped_def trb_fifo_peek_def trb_is_empty_def fifo_empty_iff [THEN iffD2])
  next
    case False
    with fifo_peek_sim [OF inv False, of out] show ?thesis
      using inv Fifo_peek by (auto simp: popped_def)
  qed
next
  case Flush
  with fifo_flush_sim [OF inv] show ?thesis by (simp add: trb_flush_def)
next
  case Is_empty
  then show ?thesis
    using inv by (simp add: trb_is_empty_def length_fifo_contents unat_eq_zero)
next
  case Is_full
  then show ?thesis
    using inv by (simp add: trb_is_full_def fifo_full_iff)
next
  case Size
  then show ?thesis
    using inv by (simp add: trb_size_def length_fifo_contents)
next
  case Capacity
  then show ?thesis
    using inv by (simp add: trb_capacity_def)
next
  case Remaining
  from inv have "unat (count s) \<le> unat (capacity s)" by (simp add: fifo_inv_def)
  then have "(of_nat (unat (capacity s) - unat (count s)) :: size_t) = capacity s - count s"
    by simp
  with Remaining show ?thesis
    using inv by (simp add: trb_remaining_def length_fifo_contents)
qed (use x in simp_all)

lemma run_fifo_sim:
  assumes "fifo_inv s" and "list_all fifo_op ops"
  shows "\<exists>log s' out'. run ops s out = Inr (log, s', out') \<and>
           spec_fifo_run (unat (capacity s)) ops (fifo_contents s) out
             = Some (log, fifo_contents s', out') \<and>
           fifo_inv s' \<and> capacity s' = capacity s"
  using assms
proof (induction ops arbitrary: s out)
  case Nil
  then show ?case by simp
next
  case (Cons x xs)
  from Cons.prems obtain r s1 out1 where
    e: "exec x s out = Inr (r, s1, out1)"
    and a: "spec_fifo (unat (capacity s)) x (fifo_contents s) out = Some (r, fifo_contents s1, out1)"
    and i: "fifo_inv s1" and c: "capacity s1 = capacity s"
    using exec_fifo_sim [of s x out] by auto
  from Cons.IH [OF i, of out1] Cons.prems(2) obtain log s' out' where
    "run xs s1 out1 = Inr (log, s', out')"
    "spec_fifo_run (unat (capacity s1)) xs (fifo_contents s1) out1 = Some (log, fifo_contents s', out')"
    "fifo_inv s'" "capacity s' = capacity s1"
    by auto
  with e a c show ?case by simp
qed

lemma fifo_reachable:
  assumes "0 < N" and "fifo_only ops" and "run ops (TRB_RB_DEFINE z N) out = Inr (log, s, out')"
  shows "fifo_inv s \<and> capacity s = N \<and>
           spec_fifo_run (unat N) ops [] out = Some (log, fifo_contents s, out')"
proof -
  have "capacity (TRB_RB_DEFINE z N) = N" by (simp add: TRB_RB_DEFINE_def)
  with run_fifo_sim [OF fifo_inv_init [OF assms(1)], of ops z out] assms(2,3)
  show ?thesis by (auto simp: fifo_only_def fifo_contents_init)
qed

lemma fifo_three:
  assumes inv: "fifo_inv s" and cap: "3 \<le> capacity s" and emp: "count s = 0"
  shows "\<exists>s'. run [Fifo_push v1, Fifo_push v2, Fifo_push v3, Fifo_pop, Fifo_pop, Fifo_pop] s out
           = Inr ([(Code 0, out), (Code 0, out), (Code 0, out),
                   (Code 0, v1), (Code 0, v2), (Code 0, v3)], s', v3)"
proof -
  let ?ops = "[Fifo_push v1, Fifo_push v2, Fifo_push v3, Fifo_pop, Fifo_pop, Fifo_pop]"
  have "list_all fifo_op ?ops" by simp
  from run_fifo_sim [OF inv this, of out] obtain log s' out' where
    r: "run ?ops s out = Inr (log, s', out')" and
    a: "spec_fifo_run (unat (capacity s)) ?ops (fifo_contents s) out
          = Some (log, fifo_contents s', out')"
    by blast
  from emp have "fifo_contents s = []" by (simp add: fifo_empty_iff)
  with a three_le [OF cap] have
    "log = [(Code 0, out), (Code 0, out), (Code 0, out), (Code 0, v1), (Code 0, v2), (Code 0, v3)]"
    "out' = v3"
    by auto
  with r show ?thesis by blast
qed

text \<open>
  C1. From the initial state of a buffer of capacity at least 1, every sequence of FIFO
  calls, flush and queries runs to its end, and every call returns what the bounded queue
  \<open>spec_fifo\<close> returns: each successful \<open>fifo_pop\<close> yields the oldest pushed element not
  yet popped, where a force-push on a full buffer has retired the oldest one. In
  particular, in every empty state so reached, with capacity at least 3, the pushes of
  \<open>v1\<close>, \<open>v2\<close>, \<open>v3\<close> all return 0 and the three pops that follow return 0 with \<open>v1\<close>, \<open>v2\<close>,
  \<open>v3\<close>.
\<close>

theorem fifo_order:
  assumes "0 < N" and "fifo_only ops"
  shows "\<exists>log s out'.
           run ops (TRB_RB_DEFINE z N) out = Inr (log, s, out') \<and>
           spec_fifo_run (unat N) ops [] out = Some (log, fifo_contents s, out') \<and>
           (3 \<le> N \<and> count s = 0 \<longrightarrow>
              (\<exists>s'. run [Fifo_push v1, Fifo_push v2, Fifo_push v3, Fifo_pop, Fifo_pop, Fifo_pop]
                       s out'
                     = Inr ([(Code 0, out'), (Code 0, out'), (Code 0, out'),
                             (Code 0, v1), (Code 0, v2), (Code 0, v3)], s', v3)))"
proof -
  from assms(2) have "list_all fifo_op ops" by (simp add: fifo_only_def)
  from run_fifo_sim [OF fifo_inv_init [OF assms(1)] this, of z out] obtain log s out' where
    r: "run ops (TRB_RB_DEFINE z N) out = Inr (log, s, out')" by blast
  from fifo_reachable [OF assms r] have
    i: "fifo_inv s" and c: "capacity s = N" and
    a: "spec_fifo_run (unat N) ops [] out = Some (log, fifo_contents s, out')"
    by simp_all
  from i c fifo_three [of s v1 v2 v3 out'] have
    "3 \<le> N \<and> count s = 0 \<longrightarrow>
       (\<exists>s'. run [Fifo_push v1, Fifo_push v2, Fifo_push v3, Fifo_pop, Fifo_pop, Fifo_pop] s out'
              = Inr ([(Code 0, out'), (Code 0, out'), (Code 0, out'),
                      (Code 0, v1), (Code 0, v2), (Code 0, v3)], s', v3))"
    by simp
  with r a show ?thesis by blast
qed

theorem fifo_order_witness:
  "(0::size_t) < 3 \<and> fifo_only [Fifo_push (7::nat), Fifo_pop] \<and>
   run [Fifo_push (7::nat), Fifo_pop] (TRB_RB_DEFINE 0 3) 0
     = Inr ([(Code 0, 0), (Code 0, 7)],
            \<lparr>buf = [7, 0, 0], capacity = 3, head = 1, tail = 1, count = 0\<rparr>, 7) \<and>
   spec_fifo_run 3 [Fifo_push (7::nat), Fifo_pop] [] 0 = Some ([(Code 0, 0), (Code 0, 7)], [], 7) \<and>
   (3::size_t) \<le> 3 \<and>
   count \<lparr>buf = [7, 0, 0 :: nat], capacity = 3, head = 1, tail = 1, count = 0\<rparr> = 0 \<and>
   (\<exists>s'. run [Fifo_push 1, Fifo_push 2, Fifo_push 3, Fifo_pop, Fifo_pop, Fifo_pop]
            \<lparr>buf = [7, 0, 0 :: nat], capacity = 3, head = 1, tail = 1, count = 0\<rparr> 7
          = Inr ([(Code 0, 7), (Code 0, 7), (Code 0, 7), (Code 0, 1), (Code 0, 2), (Code 0, 3)],
                 s', 3))"
proof -
  let ?s0 = "\<lparr>buf = [7, 0, 0 :: nat], capacity = 3, head = 1, tail = 1, count = 0\<rparr>"
  have h1: "(0::size_t) < 3" by simp
  have h2: "fifo_only [Fifo_push (7::nat), Fifo_pop]" by code_simp
  have r: "run [Fifo_push (7::nat), Fifo_pop] (TRB_RB_DEFINE 0 3) 0
             = Inr ([(Code 0, 0), (Code 0, 7)], ?s0, 7)"
    by code_simp
  have a: "spec_fifo_run 3 [Fifo_push (7::nat), Fifo_pop] [] 0
             = Some ([(Code 0, 0), (Code 0, 7)], [], 7)"
    by code_simp
  from fifo_order [OF h1 h2, of 0 0 1 2 3] r
  have "\<exists>s'. run [Fifo_push 1, Fifo_push 2, Fifo_push 3, Fifo_pop, Fifo_pop, Fifo_pop] ?s0 7
          = Inr ([(Code 0, 7), (Code 0, 7), (Code 0, 7), (Code 0, 1), (Code 0, 2), (Code 0, 3)],
                 s', 3)"
    by simp
  with h1 h2 r a show ?thesis by simp
qed

text \<open>
  C3. In every state reached from the initial state of a buffer of capacity at least 1 by
  FIFO calls, flush and queries, \<open>fifo_force_push\<close> completes: it writes the value at
  index \<open>tail\<close>, a slot of the storage, and moves \<open>tail\<close> to \<open>(tail + 1) mod capacity\<close>. If
  \<open>count = capacity\<close> before the call, \<open>tail\<close> was \<open>head\<close>, so the oldest element is the one
  overwritten, \<open>head\<close> moves to \<open>(head + 1) mod capacity\<close> and \<open>count\<close> stays; otherwise
  \<open>head\<close> stays and \<open>count\<close> grows by one. A buffer of capacity 3 that holds \<open>[a, b, c]\<close>
  holds \<open>[b, c, v]\<close> afterwards, with \<open>count\<close> still 3.
\<close>

theorem force_push_semantics:
  assumes "0 < N" and "fifo_only ops"
    and "run ops (TRB_RB_DEFINE z N) out = Inr (log, s, out')"
  shows "\<exists>s'. trb_fifo_force_push s v = Inr s' \<and>
           unat (tail s) < length (buf s) \<and>
           buf s' = (buf s)[unat (tail s) := v] \<and>
           unat (tail s') = (unat (tail s) + 1) mod unat (capacity s) \<and>
           capacity s' = capacity s \<and>
           (if count s = capacity s
            then unat (head s') = (unat (head s) + 1) mod unat (capacity s) \<and>
                 count s' = count s \<and> tail s = head s \<and>
                 fifo_contents s' = tl (fifo_contents s) @ [v]
            else head s' = head s \<and> unat (count s') = unat (count s) + 1 \<and>
                 fifo_contents s' = fifo_contents s @ [v]) \<and>
           (N = 3 \<and> fifo_contents s = [a, b, c] \<longrightarrow>
              fifo_contents s' = [b, c, v] \<and> count s' = 3)"
proof -
  from fifo_reachable [OF assms] have i: "fifo_inv s" and c: "capacity s = N" by simp_all
  from fifo_force_push_sim [OF i, of v] obtain s' where
    f: "trb_fifo_force_push s v = Inr s'" and
    q: "fifo_contents s' =
          (if count s = capacity s then tl (fifo_contents s) else fifo_contents s) @ [v]"
    by blast
  from i have tl: "unat (tail s) < unat (capacity s)" and hl: "unat (head s) < unat (capacity s)"
    by (auto simp: fifo_inv_def)
  have full: "tail s = head s" if "count s = capacity s"
    using i that hl by (simp add: fifo_inv_def word_unat_eq_iff)
  have nf: "unat (count s + 1) = unat (count s) + 1" if "count s \<noteq> capacity s"
    using unat_inc [OF fifo_not_full [OF i that]] by simp
  have three: "count s = 3" if "N = 3" "fifo_contents s = [a, b, c]"
    using that length_fifo_contents [of s] by (simp add: word_unat_eq_iff)
  from f have shape:
    "buf s' = (buf s)[unat (tail s) := v]" "tail s' = (tail s + 1) mod capacity s"
    "capacity s' = capacity s"
    "count s = capacity s \<Longrightarrow> head s' = (head s + 1) mod capacity s \<and> count s' = count s"
    "count s \<noteq> capacity s \<Longrightarrow> head s' = head s \<and> count s' = count s + 1"
    using fifo_inv_slots [OF i]
    by (auto simp: trb_fifo_force_push_def trb_is_full_def Let_def split: if_splits)
  show ?thesis
    using f q shape fifo_inv_slots(3) [OF i] full nf three c
      unat_inc_mod [OF tl] unat_inc_mod [OF hl]
    by (auto split: if_splits)
qed

theorem force_push_semantics_witness:
  "(0::size_t) < 3 \<and> fifo_only [Fifo_push (1::nat), Fifo_push 2, Fifo_push 3] \<and>
   run [Fifo_push (1::nat), Fifo_push 2, Fifo_push 3] (TRB_RB_DEFINE 0 3) 0
     = Inr ([(Code 0, 0), (Code 0, 0), (Code 0, 0)],
            \<lparr>buf = [1, 2, 3], capacity = 3, head = 0, tail = 0, count = 3\<rparr>, 0) \<and>
   fifo_contents \<lparr>buf = [1, 2, 3 :: nat], capacity = 3, head = 0, tail = 0, count = 3\<rparr> = [1, 2, 3] \<and>
   trb_fifo_force_push \<lparr>buf = [1, 2, 3 :: nat], capacity = 3, head = 0, tail = 0, count = 3\<rparr> 4
     = Inr \<lparr>buf = [4, 2, 3], capacity = 3, head = 1, tail = 1, count = 3\<rparr> \<and>
   fifo_contents \<lparr>buf = [4, 2, 3 :: nat], capacity = 3, head = 1, tail = 1, count = 3\<rparr> = [2, 3, 4]"
proof -
  let ?s = "\<lparr>buf = [1, 2, 3 :: nat], capacity = 3, head = 0, tail = 0, count = 3\<rparr>"
  let ?s' = "\<lparr>buf = [4, 2, 3 :: nat], capacity = 3, head = 1, tail = 1, count = 3\<rparr>"
  have h1: "(0::size_t) < 3" by simp
  have h2: "fifo_only [Fifo_push (1::nat), Fifo_push 2, Fifo_push 3]" by code_simp
  have r: "run [Fifo_push (1::nat), Fifo_push 2, Fifo_push 3] (TRB_RB_DEFINE 0 3) 0
             = Inr ([(Code 0, 0), (Code 0, 0), (Code 0, 0)], ?s, 0)"
    by code_simp
  have q: "fifo_contents ?s = [1, 2, 3]" by code_simp
  have f: "trb_fifo_force_push ?s 4 = Inr ?s'" by code_simp
  from force_push_semantics [OF h1 h2 r, of 4 1 2 3] q f
  have "fifo_contents ?s' = [2, 3, 4]" by simp
  with h1 h2 r q f show ?thesis by simp
qed

end
